theory Spec2Isabelle
  imports Complex_Main "HOL-Library.Word"
begin

section \<open>Numeric types and failures\<close>

text \<open>
  The bucket boundary type \<open>T\<close> of the templates is an integer type: a linear order with a
  least and a greatest element, which are what \<open>std::numeric_limits<T>::min()\<close> and
  \<open>std::numeric_limits<T>::max()\<close> return. Every unsigned type is the instance
  \<open>'w word\<close> (\<open>hrtime_t\<close> is \<open>64 word\<close>); \<open>size_t\<close> is 64 bits wide and \<open>int\<close> 32.
\<close>

type_synonym size_t = "64 word"
type_synonym c_int = "32 word"

text \<open>
  Modelled from the spec: the header \<open>platform/platform.h\<close>, which declares \<open>hrtime_t\<close>
  and \<open>gethrtime\<close>, is not among the sources. The spec asks for a monotonic,
  non-decreasing, nanosecond-resolution time source: \<open>hrtime_t\<close> is taken as an unsigned
  64-bit count of nanoseconds, and every reading of \<open>gethrtime()\<close> is an input of the
  function that takes it.
\<close>

type_synonym hrtime_t = "64 word"

definition numeric_limits_min :: "'a::order_bot" where
  "numeric_limits_min = bot"

definition numeric_limits_max :: "'a::order_top" where
  "numeric_limits_max = top"

text \<open>
  What a call can end in instead of a value: the \<open>std::overflow_error\<close> thrown by the
  fixed-input generator, and behaviour the language leaves undefined (\<open>front()\<close> of an
  empty vector, a null pointer dereferenced, a floating value cast out of range).
\<close>

datatype error = overflow_error | undefined_behaviour

section \<open>HistogramBin\<close>

record 'a HistogramBin =
  bin_count :: size_t
  bin_start :: 'a
  bin_end :: 'a

definition new_HistogramBin :: "'a \<Rightarrow> 'a \<Rightarrow> 'a HistogramBin" where
  "new_HistogramBin s e = \<lparr>bin_count = 0, bin_start = s, bin_end = e\<rparr>"

definition incr :: "'a HistogramBin \<Rightarrow> size_t \<Rightarrow> 'a HistogramBin" where
  "incr b amount = b\<lparr>bin_count := bin_count b + amount\<rparr>"

definition set_count :: "'a HistogramBin \<Rightarrow> size_t \<Rightarrow> 'a HistogramBin" where
  "set_count b val = b\<lparr>bin_count := val\<rparr>"

definition accepts :: "('a::{linorder,order_top}) HistogramBin \<Rightarrow> 'a \<Rightarrow> bool" where
  "accepts b v \<longleftrightarrow> v \<ge> bin_start b \<and> (v < bin_end b \<or> v = numeric_limits_max)"

definition HistogramBinSampleAdder :: "size_t \<Rightarrow> 'a HistogramBin \<Rightarrow> size_t" where
  "HistogramBinSampleAdder n b = n + bin_count b"

section \<open>The type double\<close>

text \<open>
  The generators hold widths and bases as \<open>double\<close>. A \<open>double\<close> is an IEEE 754
  binary64 value: a rational with a 53-bit significand and an exponent between \<open>-1022\<close>
  and \<open>1023\<close>, an infinity or a NaN (the sign of zero plays no part here). The result of
  an operation is the exact result rounded to the nearest such value, ties to the even
  significand: \<open>round_double\<close>. \<open>bit_length n\<close> is the number of binary digits of
  \<open>n\<close>, and \<open>ilog2 x\<close> the exponent \<open>e\<close> with \<open>2 ^ e \<le> x < 2 ^ (e + 1)\<close>.
\<close>

datatype double = Finite rat | PosInf | NegInf | NaN

function bit_length :: "int \<Rightarrow> int" where
  "bit_length n = (if n \<le> 0 then 0 else 1 + bit_length (n div 2))"
  by pat_completeness auto
termination
  by (relation "measure nat") auto

definition ilog2 :: "rat \<Rightarrow> int" where
  "ilog2 x = (if x \<ge> 1 then bit_length \<lfloor>x\<rfloor> - 1 else - bit_length (\<lceil>1 / x\<rceil> - 1))"

definition round_half_even :: "rat \<Rightarrow> int" where
  "round_half_even x =
     (let f = \<lfloor>x\<rfloor>; d = x - of_int f in
      if d < 1 / 2 then f else if d > 1 / 2 then f + 1 else if even f then f else f + 1)"

definition round_double :: "rat \<Rightarrow> double" where
  "round_double x =
     (if x = 0 then Finite 0
      else
        (let a = \<bar>x\<bar>;
             e = max (ilog2 a) (- 1022);
             q = 2 powi (e - 52);
             y = of_int (round_half_even (a / q)) * q
         in if y \<ge> 2 ^ 1024 then (if x > 0 then PosInf else NegInf)
            else Finite (sgn x * y)))"

text \<open>The product \<open>x * y\<close> of two doubles.\<close>

fun dmul :: "double \<Rightarrow> double \<Rightarrow> double" where
  "dmul (Finite a) (Finite b) = round_double (a * b)"
| "dmul NaN y = NaN"
| "dmul x NaN = NaN"
| "dmul (Finite a) PosInf = (if a = 0 then NaN else if a > 0 then PosInf else NegInf)"
| "dmul (Finite a) NegInf = (if a = 0 then NaN else if a > 0 then NegInf else PosInf)"
| "dmul PosInf (Finite b) = (if b = 0 then NaN else if b > 0 then PosInf else NegInf)"
| "dmul NegInf (Finite b) = (if b = 0 then NaN else if b > 0 then NegInf else PosInf)"
| "dmul PosInf PosInf = PosInf"
| "dmul PosInf NegInf = NegInf"
| "dmul NegInf PosInf = NegInf"
| "dmul NegInf NegInf = PosInf"

text \<open>
  \<open>static_cast<double>\<close> of an unsigned integer rounds it, and \<open>static_cast<T>\<close> of a
  double to an unsigned integer type drops the fraction; the cast is undefined when the
  result is not a value of \<open>T\<close>.
\<close>

definition double_of_word :: "'a::len word \<Rightarrow> double" where
  "double_of_word w = round_double (of_nat (unat w))"

definition word_of_double :: "double \<Rightarrow> error + 'a::len word" where
  "word_of_double d =
     (case d of
        Finite x \<Rightarrow>
          (let t = (if x \<ge> 0 then \<lfloor>x\<rfloor> else \<lceil>x\<rceil>) in
           if 0 \<le> t \<and> t < 2 ^ LENGTH('a) then Inr (word_of_int t) else Inl undefined_behaviour)
      | _ \<Rightarrow> Inl undefined_behaviour)"

section \<open>Generators\<close>

text \<open>
  A generator is a callable with state: one call either throws or returns a new bin and
  the advanced state. \<open>after_calls\<close> is the state after \<open>k\<close> invocations (a throwing
  invocation leaves the state as it was) and \<open>kth_call\<close> what invocation number \<open>k\<close>
  (from 0) gives.
\<close>

type_synonym ('a, 'g) generator = "'g \<Rightarrow> error + ('a HistogramBin \<times> 'g)"

fun after_calls :: "('a, 'g) generator \<Rightarrow> 'g \<Rightarrow> nat \<Rightarrow> 'g" where
  "after_calls gen g 0 = g"
| "after_calls gen g (Suc k) =
     (case gen g of Inl e \<Rightarrow> after_calls gen g k | Inr (b, g') \<Rightarrow> after_calls gen g' k)"

definition kth_call :: "('a, 'g) generator \<Rightarrow> 'g \<Rightarrow> nat \<Rightarrow> error + 'a HistogramBin" where
  "kth_call gen g k =
     (case gen (after_calls gen g k) of Inl e \<Rightarrow> Inl e | Inr (b, g') \<Rightarrow> Inr b)"

subsection \<open>FixedInputGenerator\<close>

text \<open>The two iterators are positions in the vector the generator was built over.\<close>

record 'a FixedInputGenerator =
  fig_input :: "'a list"
  fig_it :: nat
  fig_end :: nat

definition new_FixedInputGenerator :: "'a list \<Rightarrow> 'a FixedInputGenerator" where
  "new_FixedInputGenerator input = \<lparr>fig_input = input, fig_it = 0, fig_end = length input\<rparr>"

definition FixedInputGenerator_call :: "('a, 'a FixedInputGenerator) generator" where
  "FixedInputGenerator_call g =
     (if fig_it g + 1 \<ge> fig_end g then Inl overflow_error
      else
        let current = fig_input g ! fig_it g;
            g' = g\<lparr>fig_it := fig_it g + 1\<rparr>;
            next = fig_input g' ! fig_it g'
        in Inr (new_HistogramBin current next, g'))"

subsection \<open>GrowingWidthGenerator\<close>

text \<open>For an unsigned \<open>T\<close>, whose addition wraps around.\<close>

record 'a GrowingWidthGenerator =
  gw_growth :: double
  gw_start :: 'a
  gw_width :: double

definition new_GrowingWidthGenerator ::
  "'a::len word \<Rightarrow> 'a word \<Rightarrow> double \<Rightarrow> 'a word GrowingWidthGenerator" where
  "new_GrowingWidthGenerator start width growth =
     \<lparr>gw_growth = growth, gw_start = start, gw_width = double_of_word width\<rparr>"

definition GrowingWidthGenerator_call :: "('a::len word, 'a word GrowingWidthGenerator) generator" where
  "GrowingWidthGenerator_call g =
     (case word_of_double (gw_width g) of
        Inl e \<Rightarrow> Inl e
      | Inr w \<Rightarrow>
          Inr (new_HistogramBin (gw_start g) (gw_start g + w),
               g\<lparr>gw_start := gw_start g + w, gw_width := dmul (gw_width g) (gw_growth g)\<rparr>))"

subsection \<open>ExponentialGenerator\<close>

text \<open>
  \<open>std::pow\<close> is the power function of the C library. The language does not fix its
  results to the last digit, and libraries differ, so the generator takes the function as
  the parameter \<open>pw\<close>: what is proved holds for every \<open>pow\<close>. The second power is
  computed after \<open>++_start\<close>.
\<close>

record ExponentialGenerator =
  eg_start :: "64 word"
  eg_power :: double

definition new_ExponentialGenerator :: "64 word \<Rightarrow> double \<Rightarrow> ExponentialGenerator" where
  "new_ExponentialGenerator start p = \<lparr>eg_start = start, eg_power = p\<rparr>"

definition ExponentialGenerator_call ::
  "(double \<Rightarrow> double \<Rightarrow> double) \<Rightarrow> ('a::len word, ExponentialGenerator) generator" where
  "ExponentialGenerator_call pw g =
     (case word_of_double (pw (eg_power g) (double_of_word (eg_start g))) of
        Inl e \<Rightarrow> Inl e
      | Inr s \<Rightarrow>
          (let g' = g\<lparr>eg_start := eg_start g + 1\<rparr> in
           case word_of_double (pw (eg_power g') (double_of_word (eg_start g'))) of
             Inl e \<Rightarrow> Inl e
           | Inr e \<Rightarrow> Inr (new_HistogramBin s e, g')))"

subsection \<open>A generator written by a caller\<close>

text \<open>
  The constructor of \<open>Histogram\<close> is a template over the generator type \<open>G\<close>: every
  callable that returns bins will do. This one hands out the bins of a list it was given.
\<close>

definition listed_bins_call :: "('a, 'a HistogramBin list) generator" where
  "listed_bins_call g = (case g of [] \<Rightarrow> Inl overflow_error | b # bs \<Rightarrow> Inr (b, bs))"

section \<open>Histogram\<close>

record 'a Histogram =
  bins :: "'a HistogramBin list"

definition BinCompare :: "('a::linorder) \<Rightarrow> 'a HistogramBin \<Rightarrow> bool" where
  "BinCompare t b \<longleftrightarrow> t < bin_end b"

text \<open>
  \<open>std::upper_bound\<close> is the standard library's binary search: it halves the range
  \<open>[first, first + len)\<close> until it is empty and returns the position \<open>first\<close>
  (\<open>length xs\<close> stands for the end iterator). The standard asks for a range that the
  comparison partitions; the function is the algorithm as libstdc++ and libc++ have it,
  which also tells what they return on a range that is not partitioned.
\<close>

function upper_bound_loop :: "('v \<Rightarrow> 'e \<Rightarrow> bool) \<Rightarrow> 'v \<Rightarrow> 'e list \<Rightarrow> nat \<Rightarrow> nat \<Rightarrow> nat" where
  "upper_bound_loop cmp val xs first len =
     (if len > 0 then
        (let half = len div 2; middle = first + half in
         if cmp val (xs ! middle) then upper_bound_loop cmp val xs first half
         else upper_bound_loop cmp val xs (middle + 1) (len - half - 1))
      else first)"
  by pat_completeness auto
termination
  by (relation "measure (\<lambda>(cmp, val, xs, first, len). len)") auto

definition upper_bound :: "('v \<Rightarrow> 'e \<Rightarrow> bool) \<Rightarrow> 'v \<Rightarrow> 'e list \<Rightarrow> nat" where
  "upper_bound cmp val xs = upper_bound_loop cmp val xs 0 (length xs)"

text \<open>
  \<open>findBin\<close> returns a pointer to a bin of the histogram or null: the position of the bin in
  \<open>bins\<close>, or \<open>None\<close>. \<open>bins.back()\<close> of an empty vector is undefined.
\<close>

definition findBin :: "('a::{linorder,order_top}) Histogram \<Rightarrow> 'a \<Rightarrow> error + nat option" where
  "findBin h amount =
     (if amount = numeric_limits_max then
        (if bins h = [] then Inl undefined_behaviour else Inr (Some (length (bins h) - 1)))
      else
        (let it = upper_bound BinCompare amount (bins h) in
         if it = length (bins h) then Inr None
         else if \<not> accepts (bins h ! it) amount then Inr None
         else Inr (Some it)))"

definition getBin :: "('a::{linorder,order_top}) Histogram \<Rightarrow> 'a \<Rightarrow> error + nat option" where
  "getBin h amount = findBin h amount"

text \<open>\<open>add\<close> dereferences what \<open>findBin\<close> returns; on null that is undefined.\<close>

definition add :: "('a::{linorder,order_top}) Histogram \<Rightarrow> 'a \<Rightarrow> size_t \<Rightarrow> error + 'a Histogram" where
  "add h amount cnt =
     (case findBin h amount of
        Inl e \<Rightarrow> Inl e
      | Inr None \<Rightarrow> Inl undefined_behaviour
      | Inr (Some i) \<Rightarrow> Inr (h\<lparr>bins := (bins h)[i := incr (bins h ! i) cnt]\<rparr>))"

definition reset :: "'a Histogram \<Rightarrow> 'a Histogram" where
  "reset h = h\<lparr>bins := map (\<lambda>b. set_count b 0) (bins h)\<rparr>"

text \<open>
  \<open>total\<close> calls \<open>std::accumulate\<close> with the initial value \<open>0\<close>, an \<open>int\<close>: the
  accumulator is an \<open>int\<close>. Each step converts it to \<open>size_t\<close> for the adder (sign
  extension) and converts the adder's \<open>size_t\<close> result back to \<open>int\<close> (the low 32 bits);
  the final \<open>int\<close> is converted to the \<open>size_t\<close> that \<open>total\<close> returns.
\<close>

definition accumulate_step :: "c_int \<Rightarrow> 'a HistogramBin \<Rightarrow> c_int" where
  "accumulate_step init b = ucast (HistogramBinSampleAdder (scast init) b)"

definition total :: "'a Histogram \<Rightarrow> size_t" where
  "total h = scast (foldl accumulate_step 0 (bins h))"

subsection \<open>Construction\<close>

text \<open>
  \<open>verify\<close> returns what it wrote to \<open>std::cerr\<close> (one diagnostic: the bin start it
  found, the value it expected and the position) and its result.
\<close>

datatype 'a diagnostic = Expected 'a 'a nat

fun verify_loop :: "'a \<Rightarrow> nat \<Rightarrow> ('a::order_top) HistogramBin list \<Rightarrow> 'a diagnostic list \<times> bool" where
  "verify_loop prev pos [] =
     (if prev \<noteq> numeric_limits_max then ([], False) else ([], True))"
| "verify_loop prev pos (b # bs) =
     (if bin_start b \<noteq> prev then ([Expected (bin_start b) prev pos], False)
      else if bin_start b \<noteq> prev then ([], False)
      else verify_loop (bin_end b) (pos + 1) bs)"

definition verify :: "('a::{order_bot,order_top}) Histogram \<Rightarrow> 'a diagnostic list \<times> bool" where
  "verify h = verify_loop numeric_limits_min 0 (bins h)"

text \<open>\<open>std::generate\<close> calls the generator once for each of the \<open>n\<close> slots of \<open>bins\<close>.\<close>

fun std_generate :: "('a, 'g) generator \<Rightarrow> 'g \<Rightarrow> nat \<Rightarrow> error + 'a HistogramBin list" where
  "std_generate gen g 0 = Inr []"
| "std_generate gen g (Suc n) =
     (case gen g of
        Inl e \<Rightarrow> Inl e
      | Inr (b, g') \<Rightarrow>
          (case std_generate gen g' n of Inl e \<Rightarrow> Inl e | Inr bs \<Rightarrow> Inr (b # bs)))"

text \<open>
  \<open>fill\<close> returns the histogram and what went to \<open>std::cerr\<close>. The result of \<open>verify\<close>
  is not looked at. \<open>bins.front()\<close> of an empty vector (\<open>n = 0\<close>) is undefined.
\<close>

definition fill ::
  "('a::{linorder,order_bot,order_top}, 'g) generator \<Rightarrow> 'g \<Rightarrow> nat \<Rightarrow>
     error + ('a Histogram \<times> 'a diagnostic list)" where
  "fill gen g n =
     (case std_generate gen g n of
        Inl e \<Rightarrow> Inl e
      | Inr bs0 \<Rightarrow>
          if bs0 = [] then Inl undefined_behaviour
          else
            (let bs1 = (if bin_start (hd bs0) > numeric_limits_min
                        then new_HistogramBin numeric_limits_min (bin_start (hd bs0)) # bs0
                        else bs0);
                 bs2 = (if bin_end (last bs1) < numeric_limits_max
                        then bs1 @ [new_HistogramBin (bin_end (last bs1)) numeric_limits_max]
                        else bs1);
                 h = \<lparr>bins = bs2\<rparr>;
                 (cerr, ok) = verify h
             in Inr (h, cerr)))"

definition new_Histogram ::
  "('a::{linorder,order_bot,order_top}, 'g) generator \<Rightarrow> 'g \<Rightarrow> nat \<Rightarrow>
     error + ('a Histogram \<times> 'a diagnostic list)" where
  "new_Histogram generator g n = fill generator g n"

text \<open>The default histogram uses the exponential generator from exponent 0 with base 2.\<close>

definition new_Histogram_default ::
  "(double \<Rightarrow> double \<Rightarrow> double) \<Rightarrow> nat \<Rightarrow>
     error + ('a::len word Histogram \<times> 'a word diagnostic list)" where
  "new_Histogram_default pw n =
     fill (ExponentialGenerator_call pw) (new_ExponentialGenerator 0 (Finite 2)) n"

subsection \<open>Sequences of calls\<close>

text \<open>A caller's calls of \<open>add\<close> and \<open>reset\<close>, run one after the other.\<close>

datatype 'a call = Add 'a size_t | Reset

fun run_call :: "('a::{linorder,order_top}) Histogram \<Rightarrow> 'a call \<Rightarrow> error + 'a Histogram" where
  "run_call h (Add v c) = add h v c"
| "run_call h Reset = Inr (reset h)"

fun run_calls :: "('a::{linorder,order_top}) Histogram \<Rightarrow> 'a call list \<Rightarrow> error + 'a Histogram" where
  "run_calls h [] = Inr h"
| "run_calls h (c # cs) = (case run_call h c of Inl e \<Rightarrow> Inl e | Inr h' \<Rightarrow> run_calls h' cs)"

subsection \<open>The invariants of the bucket sequence\<close>

text \<open>
  Adjacent buckets meet (\<open>bucket[i].end = bucket[i+1].start\<close>), the buckets are in
  ascending order of start, and the first bucket starts at the minimum of \<open>T\<close> while the
  last one ends at its maximum.
\<close>

fun contiguous :: "'a HistogramBin list \<Rightarrow> bool" where
  "contiguous [] = True"
| "contiguous [b] = True"
| "contiguous (b # c # bs) = (bin_end b = bin_start c \<and> contiguous (c # bs))"

definition sorted_by_start :: "('a::linorder) Histogram \<Rightarrow> bool" where
  "sorted_by_start h = sorted (map bin_start (bins h))"

definition full_coverage :: "('a::{order_bot,order_top}) Histogram \<Rightarrow> bool" where
  "full_coverage h \<longleftrightarrow>
     bins h \<noteq> [] \<and> bin_start (hd (bins h)) = numeric_limits_min \<and>
     bin_end (last (bins h)) = numeric_limits_max"

text \<open>
  Bucket \<open>i\<close> is the first bucket of the sequence whose end is above \<open>v\<close>: the bucket
  that a search from the left for \<open>v < end\<close> stops at.
\<close>

definition first_bucket_above :: "('a::linorder) HistogramBin list \<Rightarrow> 'a \<Rightarrow> nat \<Rightarrow> bool" where
  "first_bucket_above bs v i \<longleftrightarrow>
     i < length bs \<and> v < bin_end (bs ! i) \<and> (\<forall>j<i. \<not> v < bin_end (bs ! j))"

section \<open>GenericBlockTimer\<close>

text \<open>
  The timer holds pointers: \<open>dest\<close> to a histogram (its address in the store, or null),
  \<open>name\<close> to a string and \<open>out\<close> to a stream. The state it acts on is the histograms by
  address and the text written so far to each stream; \<open>std::cerr\<close> is one of the streams,
  and \<open>out\<close> may point to it. \<open>gethrtime()\<close> is a reading of the monotonic clock in
  nanoseconds, handed to the constructor and to the destructor.
\<close>

datatype ostream = std_cerr | other_stream nat

record GenericBlockTimer =
  bt_dest :: "nat option"
  bt_start :: hrtime_t
  bt_name :: "string option"
  bt_out :: "ostream option"

record world =
  histograms :: "nat \<Rightarrow> hrtime_t Histogram"
  written :: "ostream \<Rightarrow> string"

text \<open>\<open>operator<<\<close> prints an unsigned integer in decimal.\<close>

definition digit_char :: "nat \<Rightarrow> char" where
  "digit_char d = ''0123456789'' ! d"

function decimal :: "nat \<Rightarrow> string" where
  "decimal n = (if n < 10 then [digit_char n] else decimal (n div 10) @ [digit_char (n mod 10)])"
  by pat_completeness auto
termination
  by (relation "measure id") auto

definition write_to :: "ostream \<Rightarrow> string \<Rightarrow> world \<Rightarrow> world" where
  "write_to s text w = w\<lparr>written := (written w)(s := written w s @ text)\<rparr>"

definition new_GenericBlockTimer ::
  "nat option \<Rightarrow> string option \<Rightarrow> ostream option \<Rightarrow> hrtime_t \<Rightarrow> GenericBlockTimer" where
  "new_GenericBlockTimer d n os now = \<lparr>bt_dest = d, bt_start = now, bt_name = n, bt_out = os\<rparr>"

definition GenericBlockTimer_log ::
  "64 word \<Rightarrow> hrtime_t \<Rightarrow> string option \<Rightarrow> ostream option \<Rightarrow> world \<Rightarrow> world" where
  "GenericBlockTimer_log THRESHOLD_MS spent name os w =
     (let w1 = (case (os, name) of
                  (Some s, Some n) \<Rightarrow>
                    write_to s (n @ [CHR 0x09] @ decimal (unat spent) @ [CHR 0x0A]) w
                | _ \<Rightarrow> w)
      in if THRESHOLD_MS > 0 then
           (let msec = spent div 1000000 in
            if name \<noteq> None \<and> msec > THRESHOLD_MS
            then write_to std_cerr
                   (''BlockTimer<'' @ the name @ ''> Took too long: '' @ decimal (unat msec) @
                    ''ms'' @ [CHR 0x0A]) w1
            else w1)
         else w1)"

definition destroy_GenericBlockTimer ::
  "64 word \<Rightarrow> GenericBlockTimer \<Rightarrow> hrtime_t \<Rightarrow> world \<Rightarrow> error + world" where
  "destroy_GenericBlockTimer THRESHOLD_MS t now w =
     (let spent = now - bt_start t in
      case bt_dest t of
        None \<Rightarrow> Inr (GenericBlockTimer_log THRESHOLD_MS spent (bt_name t) (bt_out t) w)
      | Some d \<Rightarrow>
          (case add (histograms w d) (spent div 1000) 1 of
             Inl e \<Rightarrow> Inl e
           | Inr h \<Rightarrow>
               Inr (GenericBlockTimer_log THRESHOLD_MS spent (bt_name t) (bt_out t)
                      (w\<lparr>histograms := (histograms w)(d := h)\<rparr>))))"

section \<open>Properties of the generators\<close>

lemma after_calls_add:
  "after_calls gen g (j + k) = after_calls gen (after_calls gen g j) k"
  by (induction j arbitrary: g) (auto split: sum.splits)

subsection \<open>The fixed-input generator\<close>

lemma fig_after_calls_advance:
  "fig_it g + k < fig_end g \<Longrightarrow>
     after_calls FixedInputGenerator_call g k = g\<lparr>fig_it := fig_it g + k\<rparr>"
proof (induction k arbitrary: g)
  case 0
  then show ?case by simp
next
  case (Suc k)
  then have step: "FixedInputGenerator_call g =
      Inr (new_HistogramBin (fig_input g ! fig_it g) (fig_input g ! (fig_it g + 1)),
           g\<lparr>fig_it := fig_it g + 1\<rparr>)"
    by (simp add: FixedInputGenerator_call_def Let_def)
  from Suc.prems have "fig_it (g\<lparr>fig_it := fig_it g + 1\<rparr>) + k < fig_end (g\<lparr>fig_it := fig_it g + 1\<rparr>)"
    by simp
  from Suc.IH [OF this] show ?case
    by (simp add: step)
qed

lemma fig_after_calls_stuck:
  "fig_end g \<le> fig_it g + 1 \<Longrightarrow> after_calls FixedInputGenerator_call g k = g"
  by (induction k) (simp_all add: FixedInputGenerator_call_def)

text \<open>
  C6. Over a boundary sequence \<open>s\<close> of length \<open>m\<close>, invocation number \<open>k\<close> (from 0) of a
  fixed-input generator returns the bin \<open>[s[k], s[k+1])\<close> when \<open>k < m - 1\<close>, and throws
  the overflow error when \<open>k \<ge> m - 1\<close> (fewer than two boundary values are left); over
  \<open>[0, 5, 15]\<close> the calls give \<open>[0,5)\<close>, \<open>[5,15)\<close> and then the overflow error.
\<close>

theorem FixedInputGenerator_kth_call:
  "(k + 1 < length s \<longrightarrow>
      kth_call FixedInputGenerator_call (new_FixedInputGenerator s) k =
        Inr (new_HistogramBin (s ! k) (s ! (k + 1)))) \<and>
   (length s \<le> k + 1 \<longrightarrow>
      kth_call FixedInputGenerator_call (new_FixedInputGenerator s) k = Inl overflow_error) \<and>
   map (kth_call FixedInputGenerator_call (new_FixedInputGenerator [0, 5, 15 :: hrtime_t]))
       [0, 1, 2] =
     [Inr (new_HistogramBin 0 5), Inr (new_HistogramBin 5 15), Inl overflow_error]"
proof -
  let ?g = "new_FixedInputGenerator s"
  have small: "kth_call FixedInputGenerator_call (new_FixedInputGenerator t) j =
      Inr (new_HistogramBin (t ! j) (t ! (j + 1)))" if "j + 1 < length t" for j and t :: "'b list"
  proof -
    from that have "after_calls FixedInputGenerator_call (new_FixedInputGenerator t) j =
        (new_FixedInputGenerator t)\<lparr>fig_it := j\<rparr>"
      using fig_after_calls_advance [of "new_FixedInputGenerator t" j]
      by (simp add: new_FixedInputGenerator_def)
    with that show ?thesis
      by (simp add: kth_call_def FixedInputGenerator_call_def new_FixedInputGenerator_def Let_def)
  qed
  have large: "kth_call FixedInputGenerator_call (new_FixedInputGenerator t) j = Inl overflow_error"
    if "length t \<le> j + 1" for j and t :: "'b list"
  proof -
    define i where "i = length t - 1"
    define g where "g = after_calls FixedInputGenerator_call (new_FixedInputGenerator t) i"
    have g: "g = (new_FixedInputGenerator t)\<lparr>fig_it := i\<rparr>"
    proof (cases "t = []")
      case True
      then show ?thesis by (simp add: g_def i_def new_FixedInputGenerator_def)
    next
      case False
      then have "i < length t" by (simp add: i_def)
      then show ?thesis
        unfolding g_def
        using fig_after_calls_advance [of "new_FixedInputGenerator t" i]
        by (simp add: new_FixedInputGenerator_def)
    qed
    have stuck: "fig_end g \<le> fig_it g + 1"
      by (simp add: g new_FixedInputGenerator_def i_def)
    from that have "j = i + (j - i)" by (simp add: i_def)
    then have "after_calls FixedInputGenerator_call (new_FixedInputGenerator t) j =
        after_calls FixedInputGenerator_call g (j - i)"
      unfolding g_def using after_calls_add [of FixedInputGenerator_call _ i "j - i"] by simp
    also have "\<dots> = g" by (rule fig_after_calls_stuck [OF stuck])
    finally show ?thesis
      using stuck by (simp add: kth_call_def FixedInputGenerator_call_def)
  qed
  have c0: "kth_call FixedInputGenerator_call (new_FixedInputGenerator [0, 5, 15 :: hrtime_t]) 0 =
      Inr (new_HistogramBin 0 5)"
    using small [of 0 "[0, 5, 15 :: hrtime_t]"] by simp
  have c1: "kth_call FixedInputGenerator_call (new_FixedInputGenerator [0, 5, 15 :: hrtime_t]) 1 =
      Inr (new_HistogramBin 5 15)"
    using small [of 1 "[0, 5, 15 :: hrtime_t]"] by simp
  have c2: "kth_call FixedInputGenerator_call (new_FixedInputGenerator [0, 5, 15 :: hrtime_t]) 2 =
      Inl overflow_error"
    using large [of "[0, 5, 15 :: hrtime_t]" 2] by simp
  show ?thesis
    using small [of k s] large [of s k] c0 c1 c2 by simp
qed

theorem FixedInputGenerator_kth_call_witness:
  "kth_call FixedInputGenerator_call (new_FixedInputGenerator [3, 4, 9, 20 :: hrtime_t]) 2 =
     Inr (new_HistogramBin 9 20) \<and>
   kth_call FixedInputGenerator_call (new_FixedInputGenerator [3, 4 :: hrtime_t]) 1 =
     Inl overflow_error"
  using FixedInputGenerator_kth_call [of 2 "[3, 4, 9, 20 :: hrtime_t]"]
    FixedInputGenerator_kth_call [of 1 "[3, 4 :: hrtime_t]"]
  by simp

subsection \<open>Doubles that are exact\<close>

declare bit_length.simps [simp del]

lemma bit_length_pos: "n > 0 \<Longrightarrow> bit_length n = 1 + bit_length (n div 2)"
  by (subst bit_length.simps) simp

lemma bit_length_nonpos: "n \<le> 0 \<Longrightarrow> bit_length n = 0"
  by (subst bit_length.simps) simp


lemma bit_length_power2: "bit_length (2 ^ k) = int k + 1"
proof (induction k)
  case 0
  show ?case by (simp add: bit_length_pos bit_length_nonpos)
next
  case (Suc k)
  have "bit_length (2 ^ Suc k) = 1 + bit_length (2 ^ Suc k div 2)"
    by (rule bit_length_pos) simp
  with Suc show ?case by simp
qed

lemma round_half_even_of_int: "round_half_even (of_int m) = m"
  by (simp add: round_half_even_def)

lemma round_double_exact:
  assumes x: "x > 0" and e: "ilog2 x = e" and lo: "- 1022 \<le> e"
    and m: "x * 2 powi (52 - e) = of_int m" and hi: "x < 2 ^ 1024"
  shows "round_double x = Finite x"
proof -
  have q: "x / 2 powi (e - 52) = of_int m"
  proof -
    have "(2::rat) powi (52 - e) = inverse (2 powi (e - 52))"
      using power_int_minus [of "2::rat" "e - 52"] by simp
    with m show ?thesis by (simp add: divide_inverse)
  qed
  have nz: "(2::rat) powi (e - 52) \<noteq> 0" by simp
  from q nz have restore: "of_int m * 2 powi (e - 52) = x"
    by (metis nonzero_divide_eq_eq)
  from lo e have mx: "max (ilog2 \<bar>x\<bar>) (- 1022) = e"
    using x by simp
  show ?thesis
    using x hi unfolding round_double_def Let_def mx
    by (simp add: q round_half_even_of_int restore)
qed

lemma ilog2_of_int: "n > 0 \<Longrightarrow> ilog2 (of_int n) = bit_length n - 1"
  by (simp add: ilog2_def)


lemma round_double_power2:
  assumes "k \<le> 1023"
  shows "round_double (2 ^ k) = Finite (2 ^ k)"
proof (rule round_double_exact [where e = "int k" and m = "2 ^ 52"])
  show "0 < (2::rat) ^ k" by simp
  have "ilog2 (of_int (2 ^ k)) = bit_length (2 ^ k) - 1"
    by (rule ilog2_of_int) simp
  then show "ilog2 (2 ^ k) = int k" by (simp add: bit_length_power2)
  show "- 1022 \<le> int k" by simp
  have "(2::rat) ^ k * 2 powi (52 - int k) = 2 powi (int k) * 2 powi (52 - int k)" by simp
  also have "\<dots> = 2 powi (int k + (52 - int k))"
    by (rule power_int_add [symmetric]) simp
  finally show "(2::rat) ^ k * 2 powi (52 - int k) = of_int (2 ^ 52)" by simp
  from assms have "k < 1024" by simp
  then show "(2::rat) ^ k < 2 ^ 1024" by (intro power_strict_increasing) simp_all
qed






lemma word_of_double_of_nat:
  "n < 2 ^ LENGTH('a) \<Longrightarrow> word_of_double (Finite (of_nat n)) = Inr (of_nat n :: 'a::len word)"
proof -
  assume "n < 2 ^ LENGTH('a)"
  then have "int n < 2 ^ LENGTH('a)" by (metis of_nat_less_iff of_nat_numeral of_nat_power)
  then show ?thesis
    by (simp add: word_of_double_def)
qed


lemma word_of_double_power2:
  assumes "k < LENGTH('a)"
  shows "word_of_double (Finite (2 ^ k)) = Inr (2 ^ k :: 'a::len word)"
proof -
  from assms have "(2::nat) ^ k < 2 ^ LENGTH('a)" by simp
  from word_of_double_of_nat [OF this] show ?thesis by simp
qed


subsection \<open>The growing-width generator\<close>






subsection \<open>The exponential generator\<close>







section \<open>Lookup\<close>

subsection \<open>The binary search\<close>

declare upper_bound_loop.simps [simp del]

lemma upper_bound_loop_props:
  "first \<le> upper_bound_loop cmp val xs first len \<and>
   upper_bound_loop cmp val xs first len \<le> first + len \<and>
   (upper_bound_loop cmp val xs first len = first \<or>
      \<not> cmp val (xs ! (upper_bound_loop cmp val xs first len - 1))) \<and>
   (upper_bound_loop cmp val xs first len = first + len \<or>
      cmp val (xs ! upper_bound_loop cmp val xs first len))"
proof (induction cmp val xs first len rule: upper_bound_loop.induct)
  case (1 cmp val xs first len)
  show ?case
  proof (cases "len > 0")
    case False
    then have "upper_bound_loop cmp val xs first len = first"
      by (subst upper_bound_loop.simps) simp
    then show ?thesis using False by simp
  next
    case True
    define half where "half = len div 2"
    define middle where "middle = first + half"
    have half: "half < len" using True by (simp add: half_def)
    show ?thesis
    proof (cases "cmp val (xs ! middle)")
      case c: True
      have eq: "upper_bound_loop cmp val xs first len = upper_bound_loop cmp val xs first half"
        using True c by (subst upper_bound_loop.simps) (simp add: half_def middle_def Let_def)
      define r where "r = upper_bound_loop cmp val xs first half"
      from "1.IH"(1) [OF True half_def middle_def c]
      have ih: "first \<le> r" "r \<le> first + half" "r = first \<or> \<not> cmp val (xs ! (r - 1))"
        "r = first + half \<or> cmp val (xs ! r)"
        by (simp_all add: r_def)
      from ih(4) c have "cmp val (xs ! r)" by (auto simp: middle_def)
      with ih half show ?thesis
        unfolding eq r_def [symmetric] by auto
    next
      case c: False
      have eq: "upper_bound_loop cmp val xs first len =
          upper_bound_loop cmp val xs (middle + 1) (len - half - 1)"
        using True c by (subst upper_bound_loop.simps) (simp add: half_def middle_def Let_def)
      define r where "r = upper_bound_loop cmp val xs (middle + 1) (len - half - 1)"
      from "1.IH"(2) [OF True half_def middle_def c]
      have ih: "middle + 1 \<le> r" "r \<le> middle + 1 + (len - half - 1)"
        "r = middle + 1 \<or> \<not> cmp val (xs ! (r - 1))"
        "r = middle + 1 + (len - half - 1) \<or> cmp val (xs ! r)"
        by (simp_all add: r_def)
      have len: "middle + 1 + (len - half - 1) = first + len"
        using half by (simp add: middle_def)
      from ih(3) c have "\<not> cmp val (xs ! (r - 1))" by auto
      with ih half show ?thesis
        unfolding eq r_def [symmetric] len by (auto simp: middle_def)
    qed
  qed
qed

lemma upper_bound_loop_cong:
  "length ys = length xs \<Longrightarrow> \<forall>i<length xs. cmp v (ys ! i) = cmp v (xs ! i) \<Longrightarrow>
   first + len \<le> length xs \<Longrightarrow>
     upper_bound_loop cmp v ys first len = upper_bound_loop cmp v xs first len"
proof (induction cmp v xs first len rule: upper_bound_loop.induct)
  case (1 cmp v xs first len)
  show ?case
  proof (cases "len > 0")
    case False
    then show ?thesis
      by (simp add: upper_bound_loop.simps [of cmp v ys] upper_bound_loop.simps [of cmp v xs])
  next
    case True
    define half where "half = len div 2"
    define middle where "middle = first + half"
    from True have half: "half < len" by (simp add: half_def)
    with "1.prems" have m: "middle < length xs" by (simp add: middle_def)
    with "1.prems"(2) have same: "cmp v (ys ! middle) = cmp v (xs ! middle)" by simp
    have ux: "upper_bound_loop cmp v xs first len =
        (if cmp v (xs ! middle) then upper_bound_loop cmp v xs first half
         else upper_bound_loop cmp v xs (middle + 1) (len - half - 1))"
      using True by (subst upper_bound_loop.simps) (simp add: half_def middle_def Let_def)
    have uy: "upper_bound_loop cmp v ys first len =
        (if cmp v (ys ! middle) then upper_bound_loop cmp v ys first half
         else upper_bound_loop cmp v ys (middle + 1) (len - half - 1))"
      using True by (subst upper_bound_loop.simps) (simp add: half_def middle_def Let_def)
    show ?thesis
    proof (cases "cmp v (xs ! middle)")
      case c: True
      from "1.prems" half have "first + half \<le> length xs" by simp
      from "1.IH"(1) [OF True half_def middle_def c "1.prems"(1,2) this] c same show ?thesis
        by (simp add: ux uy)
    next
      case c: False
      from "1.prems" half have "middle + 1 + (len - half - 1) \<le> length xs"
        by (simp add: middle_def)
      from "1.IH"(2) [OF True half_def middle_def c "1.prems"(1,2) this] c same show ?thesis
        by (simp add: ux uy)
    qed
  qed
qed

lemma first_bucket_above_unique:
  "first_bucket_above bs v i \<Longrightarrow> first_bucket_above bs v j \<Longrightarrow> i = j"
  unfolding first_bucket_above_def by (meson linorder_neqE_nat)

lemma upper_bound_sorted:
  fixes bs :: "('a::linorder) HistogramBin list" and v :: 'a
  assumes s: "sorted (map bin_end bs)"
  defines "r \<equiv> upper_bound BinCompare v bs"
  shows "(r < length bs \<and> first_bucket_above bs v r) \<or>
         (r = length bs \<and> (\<forall>i<length bs. \<not> v < bin_end (bs ! i)))"
proof -
  from upper_bound_loop_props [of 0 BinCompare v bs "length bs"]
  have r: "r \<le> length bs" "r = 0 \<or> \<not> v < bin_end (bs ! (r - 1))" "r = length bs \<or> v < bin_end (bs ! r)"
    by (simp_all add: r_def upper_bound_def BinCompare_def)
  have mono: "bin_end (bs ! i) \<le> bin_end (bs ! j)" if "i \<le> j" "j < length bs" for i j
    using s that sorted_nth_mono [of "map bin_end bs" i j] by simp
  have before: "\<not> v < bin_end (bs ! j)" if "j < r" for j
  proof -
    from that r(2) have "\<not> v < bin_end (bs ! (r - 1))" by auto
    moreover from that r(1) have "bin_end (bs ! j) \<le> bin_end (bs ! (r - 1))"
      by (intro mono) auto
    ultimately show ?thesis by auto
  qed
  show ?thesis
  proof (cases "r = length bs")
    case True
    with before show ?thesis by simp
  next
    case False
    with r before show ?thesis by (auto simp: first_bucket_above_def)
  qed
qed

subsection \<open>Two histograms of 64-bit values\<close>

lemma max64: "(numeric_limits_max :: hrtime_t) = 18446744073709551615"
  by (simp add: numeric_limits_max_def top_word_eq)

lemma min64: "(numeric_limits_min :: hrtime_t) = 0"
  by (simp add: numeric_limits_min_def bot_word_eq)

lemma std_generate_2:
  "std_generate gen g 2 =
     (case gen g of
        Inl e \<Rightarrow> Inl e
      | Inr (b, g') \<Rightarrow> (case gen g' of Inl e \<Rightarrow> Inl e | Inr (b', g'') \<Rightarrow> Inr [b, b']))"
  by (simp add: numeral_2_eq_2 split: sum.splits prod.splits)

lemma example_generate:
  "std_generate FixedInputGenerator_call (new_FixedInputGenerator [0, 5, 15 :: hrtime_t]) 2 =
     Inr [new_HistogramBin 0 5, new_HistogramBin 5 15]"
  by (simp add: std_generate_2 FixedInputGenerator_call_def new_FixedInputGenerator_def Let_def)

lemma example_histogram:
  "new_Histogram FixedInputGenerator_call (new_FixedInputGenerator [0, 5, 15 :: hrtime_t]) 2 =
     Inr (\<lparr>bins = [new_HistogramBin 0 5, new_HistogramBin 5 15,
                    new_HistogramBin 15 numeric_limits_max]\<rparr>, [])"
  by (simp add: new_Histogram_def fill_def example_generate Let_def verify_def
      new_HistogramBin_def min64 max64)

lemma example_findBin:
  "findBin \<lparr>bins = [new_HistogramBin 0 5, new_HistogramBin 5 15,
                    new_HistogramBin 15 (numeric_limits_max :: hrtime_t)]\<rparr> 7 = Inr (Some 1)"
  by (simp add: findBin_def upper_bound_def upper_bound_loop.simps Let_def BinCompare_def accepts_def
      new_HistogramBin_def max64)

lemma wrapped_generate:
  "std_generate GrowingWidthGenerator_call
     (new_GrowingWidthGenerator (0::hrtime_t) 9223372036854775808 (Finite 1)) 2 =
   Inr [new_HistogramBin 0 9223372036854775808, new_HistogramBin 9223372036854775808 0]"
proof -
  have r: "round_double 9223372036854775808 = Finite 9223372036854775808"
    using round_double_power2 [of 63] by simp
  have w: "(word_of_double (Finite 9223372036854775808) :: error + hrtime_t) = Inr 9223372036854775808"
    using word_of_double_power2 [of 63, where 'a = 64] by simp
  have d: "double_of_word (9223372036854775808 :: hrtime_t) = Finite 9223372036854775808"
    by (simp add: double_of_word_def r)
  show ?thesis
    by (simp add: std_generate_2 GrowingWidthGenerator_call_def new_GrowingWidthGenerator_def d w r
        new_HistogramBin_def)
qed

lemma wrapped_histogram:
  "new_Histogram GrowingWidthGenerator_call
     (new_GrowingWidthGenerator (0::hrtime_t) 9223372036854775808 (Finite 1)) 2 =
   Inr (\<lparr>bins = [new_HistogramBin 0 9223372036854775808,
                  new_HistogramBin 9223372036854775808 0,
                  new_HistogramBin 0 numeric_limits_max]\<rparr>, [])"
  by (simp add: new_Histogram_def fill_def wrapped_generate Let_def verify_def
      new_HistogramBin_def min64 max64)

subsection \<open>findBin on ordered buckets\<close>

lemma findBin_less_length:
  assumes "findBin h v = Inr (Some i)"
  shows "i < length (bins h)"
proof (cases "v = numeric_limits_max")
  case True
  with assms show ?thesis by (auto simp: findBin_def split: if_splits)
next
  case False
  from upper_bound_loop_props [of 0 BinCompare v "bins h" "length (bins h)"]
  have "upper_bound BinCompare v (bins h) \<le> length (bins h)"
    by (simp add: upper_bound_def)
  with assms False show ?thesis
    by (auto simp: findBin_def Let_def split: if_splits)
qed

lemma findBin_sorted:
  fixes h :: "('a::{linorder,order_top}) Histogram"
  assumes s: "sorted (map bin_end (bins h))" and v: "v \<noteq> numeric_limits_max"
  shows "(findBin h v = Inr (Some i) \<longleftrightarrow> first_bucket_above (bins h) v i \<and> accepts (bins h ! i) v)"
    and "(findBin h v = Inr None \<longleftrightarrow>
           (\<forall>i<length (bins h). \<not> v < bin_end (bins h ! i)) \<or>
           (\<exists>i. first_bucket_above (bins h) v i \<and> \<not> accepts (bins h ! i) v))"
proof -
  define r where "r = upper_bound BinCompare v (bins h)"
  have fb: "findBin h v =
      (if r = length (bins h) then Inr None
       else if \<not> accepts (bins h ! r) v then Inr None else Inr (Some r))"
    using v by (simp add: findBin_def Let_def r_def)
  from upper_bound_sorted [OF s, of v]
  consider (found) "r < length (bins h)" "first_bucket_above (bins h) v r"
    | (none) "r = length (bins h)" "\<forall>i<length (bins h). \<not> v < bin_end (bins h ! i)"
    by (auto simp: r_def)
  then have "(findBin h v = Inr (Some i) \<longleftrightarrow> first_bucket_above (bins h) v i \<and> accepts (bins h ! i) v) \<and>
    (findBin h v = Inr None \<longleftrightarrow>
           (\<forall>i<length (bins h). \<not> v < bin_end (bins h ! i)) \<or>
           (\<exists>i. first_bucket_above (bins h) v i \<and> \<not> accepts (bins h ! i) v))"
  proof cases
    case found
    have uniq: "first_bucket_above (bins h) v j \<longleftrightarrow> j = r" for j
      using found(2) first_bucket_above_unique [of "bins h" v j r] by blast
    have some: "\<not> (\<forall>i<length (bins h). \<not> v < bin_end (bins h ! i))"
      using found by (auto simp: first_bucket_above_def)
    from found(1) have fb': "findBin h v =
        (if \<not> accepts (bins h ! r) v then Inr None else Inr (Some r))"
      by (simp add: fb)
    show ?thesis
      unfolding uniq fb' using some by auto
  next
    case none
    then have "\<not> first_bucket_above (bins h) v j" for j
      by (auto simp: first_bucket_above_def)
    with none show ?thesis by (simp add: fb)
  qed
  then show "(findBin h v = Inr (Some i) \<longleftrightarrow> first_bucket_above (bins h) v i \<and> accepts (bins h ! i) v)"
    and "(findBin h v = Inr None \<longleftrightarrow>
           (\<forall>i<length (bins h). \<not> v < bin_end (bins h ! i)) \<or>
           (\<exists>i. first_bucket_above (bins h) v i \<and> \<not> accepts (bins h ! i) v))"
    by blast+
qed

text \<open>
  C2, as the code has it. On a histogram whose bucket ends are in ascending order (as
  they are when the buckets are sorted, contiguous and cover the domain): for the maximum
  of \<open>T\<close>,
  \<open>findBin\<close> and \<open>getBin\<close> return the last bucket; for every other value \<open>v\<close> they
  return bucket \<open>i\<close> exactly when \<open>i\<close> is the first bucket whose end is above \<open>v\<close> and it
  accepts \<open>v\<close>, and null exactly when no bucket's end is above \<open>v\<close> or that first bucket
  does not accept \<open>v\<close>.
\<close>

theorem findBin_first_bucket_above:
  fixes h :: "('a::{linorder,order_top}) Histogram"
  assumes "sorted (map bin_end (bins h))" and "bins h \<noteq> []"
  shows "(v = numeric_limits_max \<longrightarrow> findBin h v = Inr (Some (length (bins h) - 1))) \<and>
         (v \<noteq> numeric_limits_max \<longrightarrow>
            (\<forall>i. findBin h v = Inr (Some i) \<longleftrightarrow>
                   first_bucket_above (bins h) v i \<and> accepts (bins h ! i) v) \<and>
            (findBin h v = Inr None \<longleftrightarrow>
                   (\<forall>i<length (bins h). \<not> v < bin_end (bins h ! i)) \<or>
                   (\<exists>i. first_bucket_above (bins h) v i \<and> \<not> accepts (bins h ! i) v))) \<and>
         getBin h v = findBin h v"
proof -
  have "findBin h v = Inr (Some (length (bins h) - 1))" if "v = numeric_limits_max"
    using that assms(2) by (simp add: findBin_def)
  moreover have "findBin h v = Inr (Some i) \<longleftrightarrow>
      first_bucket_above (bins h) v i \<and> accepts (bins h ! i) v"
    if "v \<noteq> numeric_limits_max" for i
    using findBin_sorted(1) [OF assms(1) that] .
  moreover have "findBin h v = Inr None \<longleftrightarrow>
      (\<forall>i<length (bins h). \<not> v < bin_end (bins h ! i)) \<or>
      (\<exists>i. first_bucket_above (bins h) v i \<and> \<not> accepts (bins h ! i) v)"
    if "v \<noteq> numeric_limits_max"
    using findBin_sorted(2) [OF assms(1) that] .
  ultimately show ?thesis by (simp add: getBin_def)
qed

theorem findBin_first_bucket_above_witness:
  "sorted (map bin_end [new_HistogramBin 0 5, new_HistogramBin 5 15,
                        new_HistogramBin 15 (numeric_limits_max :: hrtime_t)]) \<and>
   first_bucket_above [new_HistogramBin 0 5, new_HistogramBin 5 15,
                        new_HistogramBin 15 (numeric_limits_max :: hrtime_t)] 7 1 \<and>
   findBin \<lparr>bins = [new_HistogramBin 0 5, new_HistogramBin 5 15,
                    new_HistogramBin 15 (numeric_limits_max :: hrtime_t)]\<rparr> 7 = Inr (Some 1) \<and>
   findBin \<lparr>bins = [new_HistogramBin 0 5, new_HistogramBin 5 15,
                    new_HistogramBin 15 (numeric_limits_max :: hrtime_t)]\<rparr> numeric_limits_max =
     Inr (Some 2)"
proof -
  let ?h = "\<lparr>bins = [new_HistogramBin 0 5, new_HistogramBin 5 15,
                    new_HistogramBin 15 (numeric_limits_max :: hrtime_t)]\<rparr>"
  have s: "sorted (map bin_end (bins ?h))" by (simp add: new_HistogramBin_def max64)
  have n: "bins ?h \<noteq> []" by simp
  have f: "first_bucket_above (bins ?h) 7 1"
    by (simp add: first_bucket_above_def new_HistogramBin_def max64)
  have a: "accepts (bins ?h ! 1) 7" by (simp add: accepts_def new_HistogramBin_def)
  have m: "(7 :: hrtime_t) \<noteq> numeric_limits_max" by (simp add: max64)
  from findBin_first_bucket_above [OF s n, of 7] m f a
  have "findBin ?h 7 = Inr (Some 1)" by blast
  moreover from findBin_first_bucket_above [OF s n, of numeric_limits_max]
  have "findBin ?h numeric_limits_max = Inr (Some 2)" by simp
  ultimately show ?thesis using s f by simp
qed

text \<open>
  The claim C2 as it is stated fails on the histogram that the growing-width generator
  for \<open>uint64_t\<close> builds from 0 with width \<open>2 ^ 63\<close> and two buckets: the end of bucket 0
  is above 5 and bucket 0 accepts 5, and \<open>findBin\<close> returns bucket 2.
\<close>

theorem findBin_unsorted_counterexample:
  "new_Histogram GrowingWidthGenerator_call
     (new_GrowingWidthGenerator (0::hrtime_t) 9223372036854775808 (Finite 1)) 2 =
   Inr (\<lparr>bins = [new_HistogramBin 0 9223372036854775808,
                  new_HistogramBin 9223372036854775808 0,
                  new_HistogramBin 0 numeric_limits_max]\<rparr>, []) \<and>
   findBin \<lparr>bins = [new_HistogramBin 0 9223372036854775808,
                    new_HistogramBin 9223372036854775808 0,
                    new_HistogramBin 0 (numeric_limits_max :: hrtime_t)]\<rparr> 5 = Inr (Some 2) \<and>
   (5 :: hrtime_t) < bin_end ([new_HistogramBin 0 9223372036854775808,
                    new_HistogramBin 9223372036854775808 0,
                    new_HistogramBin 0 (numeric_limits_max :: hrtime_t)] ! 0) \<and>
   accepts ([new_HistogramBin 0 9223372036854775808,
                    new_HistogramBin 9223372036854775808 0,
                    new_HistogramBin 0 (numeric_limits_max :: hrtime_t)] ! 0) 5 \<and>
   (5 :: hrtime_t) \<noteq> numeric_limits_max"
  by (simp add: wrapped_histogram findBin_def upper_bound_def upper_bound_loop.simps Let_def
      BinCompare_def accepts_def new_HistogramBin_def max64)

subsection \<open>findBin on contiguous buckets\<close>

lemma contiguous_iff_nth:
  "contiguous bs \<longleftrightarrow> (\<forall>i. i + 1 < length bs \<longrightarrow> bin_end (bs ! i) = bin_start (bs ! (i + 1)))"
proof (induction bs rule: contiguous.induct)
  case 1
  then show ?case by simp
next
  case (2 b)
  then show ?case by simp
next
  case (3 b c bs)
  show ?case
  proof
    assume a: "contiguous (b # c # bs)"
    show "\<forall>i. i + 1 < length (b # c # bs) \<longrightarrow>
        bin_end ((b # c # bs) ! i) = bin_start ((b # c # bs) ! (i + 1))"
    proof (intro allI impI)
      fix i assume i: "i + 1 < length (b # c # bs)"
      show "bin_end ((b # c # bs) ! i) = bin_start ((b # c # bs) ! (i + 1))"
      proof (cases i)
        case 0
        with a show ?thesis by simp
      next
        case (Suc j)
        with a i 3 show ?thesis by simp
      qed
    qed
  next
    assume a: "\<forall>i. i + 1 < length (b # c # bs) \<longrightarrow>
        bin_end ((b # c # bs) ! i) = bin_start ((b # c # bs) ! (i + 1))"
    from a [rule_format, of 0] have h: "bin_end b = bin_start c" by simp
    have "\<forall>i. i + 1 < length (c # bs) \<longrightarrow> bin_end ((c # bs) ! i) = bin_start ((c # bs) ! (i + 1))"
    proof (intro allI impI)
      fix i assume "i + 1 < length (c # bs)"
      with a [rule_format, of "Suc i"] show "bin_end ((c # bs) ! i) = bin_start ((c # bs) ! (i + 1))"
        by simp
    qed
    with 3 h show "contiguous (b # c # bs)" by simp
  qed
qed

lemma not_less_top_eq: "\<not> (v::'a::{linorder,order_top}) < top \<Longrightarrow> v = top"
  using top.not_eq_extremum by blast

lemma not_bot_less_eq: "\<not> bot < (v::'a::{linorder,order_bot}) \<Longrightarrow> v = bot"
  using bot.not_eq_extremum by blast

lemma findBin_found:
  fixes h :: "('a::{linorder,order_bot,order_top}) Histogram"
  assumes c: "contiguous (bins h)" and f: "full_coverage h"
  shows "\<exists>i. i < length (bins h) \<and> findBin h v = Inr (Some i) \<and> accepts (bins h ! i) v"
proof (cases "v = numeric_limits_max")
  case True
  from f have ne: "bins h \<noteq> []" by (simp add: full_coverage_def)
  then have "length (bins h) - 1 < length (bins h)" by simp
  moreover have "findBin h v = Inr (Some (length (bins h) - 1))"
    using True ne by (simp add: findBin_def)
  moreover have "accepts (bins h ! (length (bins h) - 1)) v"
    using True by (simp add: accepts_def numeric_limits_max_def)
  ultimately show ?thesis by blast
next
  case False
  define bs where "bs = bins h"
  define r where "r = upper_bound BinCompare v bs"
  from f have ne: "bs \<noteq> []" and first: "bin_start (hd bs) = bot" and lst: "bin_end (last bs) = top"
    by (simp_all add: full_coverage_def bs_def numeric_limits_min_def numeric_limits_max_def)
  from upper_bound_loop_props [of 0 BinCompare v bs "length bs"]
  have r: "r \<le> length bs" "r = 0 \<or> \<not> v < bin_end (bs ! (r - 1))" "r = length bs \<or> v < bin_end (bs ! r)"
    by (simp_all add: r_def upper_bound_def BinCompare_def)
  have vtop: "v < top" using False not_less_top_eq [of v] by (auto simp: numeric_limits_max_def)
  have rlt: "r < length bs"
  proof (rule ccontr)
    assume "\<not> r < length bs"
    with r(1) have e: "r = length bs" by simp
    with ne r(2) have "\<not> v < bin_end (bs ! (length bs - 1))" by auto
    with ne lst vtop show False by (simp add: last_conv_nth)
  qed
  with r(3) have below: "v < bin_end (bs ! r)" by simp
  have above: "bin_start (bs ! r) \<le> v"
  proof (cases "r = 0")
    case True
    with ne first show ?thesis by (simp add: hd_conv_nth)
  next
    case False
    with r(2) have "bin_end (bs ! (r - 1)) \<le> v" by simp
    moreover from c False rlt have "bin_end (bs ! (r - 1)) = bin_start (bs ! r)"
      using contiguous_iff_nth [of bs] by (auto simp: bs_def [symmetric] dest!: spec [of _ "r - 1"])
    ultimately show ?thesis by simp
  qed
  have "findBin h v = Inr (Some r)"
    using \<open>v \<noteq> numeric_limits_max\<close> rlt below above
    by (simp add: findBin_def Let_def bs_def [symmetric] r_def [symmetric] accepts_def)
  with rlt below above show ?thesis
    by (auto simp: bs_def accepts_def)
qed

text \<open>
  C5. On a histogram whose buckets are contiguous and cover the whole domain, \<open>findBin\<close>
  returns a bucket for every value, one that accepts the value, and \<open>add\<close> increments
  the counter of that bucket.
\<close>

theorem findBin_never_null:
  fixes h :: "('a::{linorder,order_bot,order_top}) Histogram"
  assumes "contiguous (bins h)" and "full_coverage h"
  shows "findBin h v \<noteq> Inr None \<and>
         (\<exists>i<length (bins h). findBin h v = Inr (Some i) \<and> accepts (bins h ! i) v \<and>
            add h v c = Inr (h\<lparr>bins := (bins h)[i := incr (bins h ! i) c]\<rparr>))"
proof -
  from findBin_found [OF assms, of v] obtain i where
    i: "i < length (bins h)" "findBin h v = Inr (Some i)" "accepts (bins h ! i) v"
    by blast
  then have "add h v c = Inr (h\<lparr>bins := (bins h)[i := incr (bins h ! i) c]\<rparr>)"
    by (simp add: add_def)
  with i show ?thesis by auto
qed

theorem findBin_never_null_witness:
  "contiguous [new_HistogramBin 0 5, new_HistogramBin 5 15,
               new_HistogramBin 15 (numeric_limits_max :: hrtime_t)] \<and>
   full_coverage \<lparr>bins = [new_HistogramBin 0 5, new_HistogramBin 5 15,
                          new_HistogramBin 15 (numeric_limits_max :: hrtime_t)]\<rparr> \<and>
   findBin \<lparr>bins = [new_HistogramBin 0 5, new_HistogramBin 5 15,
                    new_HistogramBin 15 (numeric_limits_max :: hrtime_t)]\<rparr> 7 \<noteq> Inr None"
proof -
  let ?h = "\<lparr>bins = [new_HistogramBin 0 5, new_HistogramBin 5 15,
                    new_HistogramBin 15 (numeric_limits_max :: hrtime_t)]\<rparr>"
  have c: "contiguous (bins ?h)" by (simp add: new_HistogramBin_def)
  have f: "full_coverage ?h" by (simp add: full_coverage_def new_HistogramBin_def min64)
  from findBin_never_null [OF c f, of 7 1] c f show ?thesis by simp
qed

subsection \<open>Which buckets accept a value\<close>





section \<open>Counting\<close>

subsection \<open>add and reset leave the boundaries alone\<close>

lemma incr_bounds:
  "i < length bs \<Longrightarrow> map bin_start (bs[i := incr (bs ! i) c]) = map bin_start bs \<and>
     map bin_end (bs[i := incr (bs ! i) c]) = map bin_end bs"
  by (simp add: map_update incr_def list_update_same_conv)

lemma add_bounds:
  assumes "add h v c = Inr h'"
  shows "map bin_start (bins h') = map bin_start (bins h) \<and> map bin_end (bins h') = map bin_end (bins h)"
proof -
  from assms obtain i where i: "findBin h v = Inr (Some i)"
    and h': "h' = h\<lparr>bins := (bins h)[i := incr (bins h ! i) c]\<rparr>"
    by (auto simp: add_def split: sum.splits option.splits)
  show ?thesis
  proof (cases "i < length (bins h)")
    case True
    then show ?thesis using incr_bounds [of i "bins h" c] by (simp add: h')
  next
    case False
    then show ?thesis by (simp add: h' list_update_beyond)
  qed
qed

lemma reset_bounds:
  "map bin_start (bins (reset h)) = map bin_start (bins h) \<and>
   map bin_end (bins (reset h)) = map bin_end (bins h)"
  by (simp add: reset_def set_count_def)

lemma run_calls_bounds:
  "run_calls h cs = Inr h' \<Longrightarrow>
     map bin_start (bins h') = map bin_start (bins h) \<and> map bin_end (bins h') = map bin_end (bins h)"
proof (induction cs arbitrary: h)
  case Nil
  then show ?case by simp
next
  case (Cons c cs)
  then obtain h1 where h1: "run_call h c = Inr h1" and rest: "run_calls h1 cs = Inr h'"
    by (auto split: sum.splits)
  have "map bin_start (bins h1) = map bin_start (bins h) \<and> map bin_end (bins h1) = map bin_end (bins h)"
  proof (cases c)
    case (Add v k)
    with h1 show ?thesis using add_bounds [of h v k h1] by simp
  next
    case Reset
    with h1 show ?thesis using reset_bounds [of h] by auto
  qed
  with Cons.IH [OF rest] show ?case by simp
qed

lemma same_bounds:
  assumes s: "map bin_start bs' = map bin_start bs" and e: "map bin_end bs' = map bin_end bs"
  shows "contiguous bs' = contiguous bs"
    and "bs' = [] \<longleftrightarrow> bs = []"
    and "bin_start (hd bs') = bin_start (hd bs)"
    and "bin_end (last bs') = bin_end (last bs)"
    and "length bs' = length bs"
    and "i < length bs \<Longrightarrow> bin_start (bs' ! i) = bin_start (bs ! i)"
    and "i < length bs \<Longrightarrow> bin_end (bs' ! i) = bin_end (bs ! i)"
proof -
  from s show len: "length bs' = length bs" by (rule map_eq_imp_length_eq)
  then show emp: "bs' = [] \<longleftrightarrow> bs = []" by auto
  show st: "bin_start (bs' ! i) = bin_start (bs ! i)" if "i < length bs" for i
    using that len nth_map [of i bs' bin_start] nth_map [of i bs bin_start] s by simp
  show en: "bin_end (bs' ! i) = bin_end (bs ! i)" if "i < length bs" for i
    using that len nth_map [of i bs' bin_end] nth_map [of i bs bin_end] e by simp
  show "contiguous bs' = contiguous bs"
    unfolding contiguous_iff_nth len using st en by auto
  show "bin_start (hd bs') = bin_start (hd bs)"
  proof (cases "bs = []")
    case True
    with emp show ?thesis by simp
  next
    case False
    with emp st [of 0] show ?thesis by (simp add: hd_conv_nth)
  qed
  show "bin_end (last bs') = bin_end (last bs)"
  proof (cases "bs = []")
    case True
    with emp show ?thesis by simp
  next
    case False
    with emp en [of "length bs - 1"] len show ?thesis by (simp add: last_conv_nth)
  qed
qed

lemma findBin_same_bounds:
  assumes s: "map bin_start (bins h') = map bin_start (bins h)"
    and e: "map bin_end (bins h') = map bin_end (bins h)"
  shows "findBin h' v = findBin h v"
proof -
  note sb = same_bounds [OF s e]
  have "upper_bound BinCompare v (bins h') = upper_bound BinCompare v (bins h)"
    unfolding upper_bound_def sb(5)
    by (rule upper_bound_loop_cong) (simp_all add: sb BinCompare_def)
  moreover have "upper_bound BinCompare v (bins h) \<le> length (bins h)"
    using upper_bound_loop_props [of 0 BinCompare v "bins h" "length (bins h)"]
    by (simp add: upper_bound_def)
  ultimately show ?thesis
    using sb(2, 5) sb(6, 7) [of "upper_bound BinCompare v (bins h)"]
    by (auto simp: findBin_def Let_def accepts_def)
qed

lemma add_replicate:
  assumes "findBin h v = Inr (Some i)"
  shows "run_calls h (replicate N (Add v 1)) =
     Inr (h\<lparr>bins := (bins h)[i := incr (bins h ! i) (of_nat N)]\<rparr>)"
  using assms
proof (induction N arbitrary: h)
  case 0
  have "incr (bins h ! i) 0 = bins h ! i" by (simp add: incr_def)
  then show ?case by simp
next
  case (Suc N)
  define h1 where "h1 = h\<lparr>bins := (bins h)[i := incr (bins h ! i) 1]\<rparr>"
  from Suc.prems have i: "i < length (bins h)" by (rule findBin_less_length)
  from Suc.prems have a: "add h v 1 = Inr h1" by (simp add: add_def h1_def)
  from add_bounds [OF a] have "findBin h1 v = findBin h v"
    by (intro findBin_same_bounds) simp_all
  with Suc.prems have "findBin h1 v = Inr (Some i)" by simp
  from Suc.IH [OF this]
  have "run_calls h1 (replicate N (Add v 1)) =
      Inr (h1\<lparr>bins := (bins h1)[i := incr (bins h1 ! i) (of_nat N)]\<rparr>)" .
  moreover have "h1\<lparr>bins := (bins h1)[i := incr (bins h1 ! i) (of_nat N)]\<rparr> =
      h\<lparr>bins := (bins h)[i := incr (bins h ! i) (of_nat (Suc N))]\<rparr>"
    using i by (simp add: h1_def incr_def add.assoc)
  ultimately show ?case using a by simp
qed

subsection \<open>total\<close>

lemma word_of_int_signed_take_bit_add:
  "(word_of_int (signed_take_bit 31 x + y) :: 32 word) = word_of_int (x + y)"
proof -
  have "take_bit 32 (signed_take_bit 31 x + y) =
      take_bit 32 (take_bit 32 (signed_take_bit 31 x) + take_bit 32 y)"
    by (simp only: take_bit_add)
  also have "\<dots> = take_bit 32 (take_bit 32 x + take_bit 32 y)"
    by (simp only: take_bit_signed_take_bit)
  also have "\<dots> = take_bit 32 (x + y)"
    by (simp only: take_bit_add)
  finally have "take_bit LENGTH(32) (signed_take_bit 31 x + y) = take_bit LENGTH(32) (x + y)"
    by simp
  then show ?thesis by (simp only: word_of_int_eq_iff)
qed

lemma scast_word_of_int:
  "(scast (word_of_int k :: 32 word) :: 64 word) = word_of_int (signed_take_bit 31 k)"
  by (simp add: scast_eq sint_sbintrunc')

lemma ucast_scast_ucast_add:
  fixes s c :: "64 word"
  shows "(ucast ((scast (ucast s :: 32 word) :: 64 word) + c) :: 32 word) = ucast (s + c)"
proof -
  have 1: "(ucast s :: 32 word) = word_of_int (uint s)"
    by (rule ucast_eq)
  note 2 = scast_word_of_int
  have 3: "(ucast (word_of_int k :: 64 word) :: 32 word) = word_of_int k" for k
    by (rule ucast_down_wi) (simp add: is_down)
  have c: "word_of_int (uint c) = c" by simp
  have s: "word_of_int (uint s) = s" by simp
  have "(scast (ucast s :: 32 word) :: 64 word) + c =
      word_of_int (signed_take_bit 31 (uint s)) + word_of_int (uint c)"
    unfolding 1 2 c ..
  also have "\<dots> = word_of_int (signed_take_bit 31 (uint s) + uint c)"
    by (simp only: wi_hom_add)
  finally have "(ucast ((scast (ucast s :: 32 word) :: 64 word) + c) :: 32 word) =
      word_of_int (signed_take_bit 31 (uint s) + uint c)"
    by (simp only: 3)
  also have "\<dots> = (word_of_int (uint s + uint c) :: 32 word)"
    by (rule word_of_int_signed_take_bit_add)
  also have "\<dots> = ucast (word_of_int (uint s + uint c) :: 64 word)"
    by (simp only: 3)
  also have "(word_of_int (uint s + uint c) :: 64 word) = s + c"
    by (simp only: wi_hom_add [symmetric] s c)
  finally show ?thesis .
qed

lemma foldl_accumulate_step:
  "foldl accumulate_step (ucast s) bs = ucast (s + sum_list (map bin_count bs))"
proof (induction bs arbitrary: s)
  case Nil
  show ?case by simp
next
  case (Cons b bs)
  have "accumulate_step (ucast s) b = ucast (s + bin_count b)"
    by (simp add: accumulate_step_def HistogramBinSampleAdder_def ucast_scast_ucast_add)
  with Cons [of "s + bin_count b"] show ?case
    by (simp add: add.assoc)
qed

lemma total_eq:
  "total h = scast (ucast (sum_list (map bin_count (bins h))) :: c_int)"
  using foldl_accumulate_step [of 0 "bins h"] by (simp add: total_def)

lemma total_small:
  assumes "sum_list (map bin_count (bins h)) < 2 ^ 31"
  shows "total h = sum_list (map bin_count (bins h))"
proof -
  define s where "s = sum_list (map bin_count (bins h))"
  from assms have "s < 2 ^ 31" by (simp only: s_def)
  then have "uint s < uint (2 ^ 31 :: size_t)" by (simp only: word_less_def)
  then have lt: "uint s < 2 ^ 31" by simp
  have "(scast (ucast s :: c_int) :: size_t) = scast (word_of_int (uint s) :: c_int)"
    by (simp only: ucast_eq)
  also have "\<dots> = word_of_int (signed_take_bit 31 (uint s))"
    by (rule scast_word_of_int)
  also have "signed_take_bit 31 (uint s) = uint s"
  proof (rule signed_take_bit_int_eq_self)
    have "- (2 ^ 31) \<le> (0::int)" by simp
    also have "(0::int) \<le> uint s" by simp
    finally show "- (2 ^ 31) \<le> uint s" .
    show "uint s < 2 ^ 31" by (rule lt)
  qed
  also have "word_of_int (uint s) = s" by simp
  finally show ?thesis by (simp only: total_eq s_def)
qed

text \<open>
  C7 fails on the code. On the histogram over \<open>[0, 5, 15]\<close>, \<open>2147483648\<close> calls of
  \<open>add (7, 1)\<close>, or one call of \<open>add (7, 2147483648)\<close>, bring the counter of bucket
  \<open>[5, 15)\<close> and the sum of the counters to \<open>2 ^ 31\<close>; \<open>total\<close>, whose accumulator is
  an \<open>int\<close>, was 0 before and returns \<open>2 ^ 64 - 2 ^ 31\<close> after.
\<close>

theorem total_truncates_to_int:
  "run_calls \<lparr>bins = [new_HistogramBin 0 5, new_HistogramBin 5 15,
                      new_HistogramBin 15 (numeric_limits_max :: hrtime_t)]\<rparr>
     (replicate 2147483648 (Add 7 1)) =
     Inr \<lparr>bins = [new_HistogramBin 0 5, (new_HistogramBin 5 15)\<lparr>bin_count := 2147483648\<rparr>,
                   new_HistogramBin 15 numeric_limits_max]\<rparr> \<and>
   add \<lparr>bins = [new_HistogramBin 0 5, new_HistogramBin 5 15,
                new_HistogramBin 15 (numeric_limits_max :: hrtime_t)]\<rparr> 7 2147483648 =
     Inr \<lparr>bins = [new_HistogramBin 0 5, (new_HistogramBin 5 15)\<lparr>bin_count := 2147483648\<rparr>,
                   new_HistogramBin 15 numeric_limits_max]\<rparr> \<and>
   sum_list (map bin_count [new_HistogramBin 0 5,
       (new_HistogramBin 5 15)\<lparr>bin_count := 2147483648\<rparr>,
       new_HistogramBin 15 (numeric_limits_max :: hrtime_t)]) = 2147483648 \<and>
   total \<lparr>bins = [new_HistogramBin 0 5, new_HistogramBin 5 15,
                  new_HistogramBin 15 (numeric_limits_max :: hrtime_t)]\<rparr> = 0 \<and>
   total \<lparr>bins = [new_HistogramBin 0 5, (new_HistogramBin 5 15)\<lparr>bin_count := 2147483648\<rparr>,
                  new_HistogramBin 15 (numeric_limits_max :: hrtime_t)]\<rparr> = 18446744071562067968"
proof -
  let ?h0 = "\<lparr>bins = [new_HistogramBin 0 5, new_HistogramBin 5 15,
                     new_HistogramBin 15 (numeric_limits_max :: hrtime_t)]\<rparr>"
  let ?h1 = "\<lparr>bins = [new_HistogramBin 0 5, (new_HistogramBin 5 15)\<lparr>bin_count := 2147483648\<rparr>,
                     new_HistogramBin 15 (numeric_limits_max :: hrtime_t)]\<rparr>"
  have e: "?h0\<lparr>bins := (bins ?h0)[1 := incr (bins ?h0 ! 1) (of_nat 2147483648)]\<rparr> = ?h1"
    by (simp add: incr_def new_HistogramBin_def)
  have 1: "run_calls ?h0 (replicate 2147483648 (Add 7 1)) = Inr ?h1"
    using add_replicate [OF example_findBin, of 2147483648] by (simp only: e)
  have 2: "add ?h0 7 2147483648 = Inr ?h1"
    unfolding add_def example_findBin by (simp add: incr_def new_HistogramBin_def)
  have 3: "sum_list (map bin_count (bins ?h1)) = 2147483648"
    by (simp add: new_HistogramBin_def)
  have 4: "total ?h0 = 0"
    by (simp add: total_eq new_HistogramBin_def)
  have 5: "total ?h1 = 18446744071562067968"
    by (simp add: total_eq new_HistogramBin_def)
  from 3 have s3: "sum_list (map bin_count [new_HistogramBin 0 5,
       (new_HistogramBin 5 15)\<lparr>bin_count := 2147483648\<rparr>,
       new_HistogramBin 15 (numeric_limits_max :: hrtime_t)]) = 2147483648"
    by (simp only: Histogram.simps)
  from 1 2 s3 4 5 show ?thesis by (intro conjI)
qed

section \<open>Construction\<close>

lemma verify_loop_iff:
  "snd (verify_loop prev pos bs) \<longleftrightarrow>
     (if bs = [] then prev = numeric_limits_max
      else bin_start (hd bs) = prev \<and> contiguous bs \<and> bin_end (last bs) = numeric_limits_max)"
proof (induction bs arbitrary: prev pos)
  case Nil
  then show ?case by simp
next
  case (Cons b bs)
  show ?case
  proof (cases bs)
    case Nil
    then show ?thesis by auto
  next
    case (Cons c cs)
    with Cons.IH [of "bin_end b" "pos + 1"] show ?thesis by auto
  qed
qed

lemma verify_iff:
  "bins h \<noteq> [] \<Longrightarrow> snd (verify h) \<longleftrightarrow> contiguous (bins h) \<and> full_coverage h"
  by (auto simp: verify_def verify_loop_iff full_coverage_def)

lemma contiguous_Cons:
  "bs \<noteq> [] \<Longrightarrow> contiguous (b # bs) \<longleftrightarrow> bin_end b = bin_start (hd bs) \<and> contiguous bs"
  by (cases bs) auto

lemma contiguous_snoc:
  "bs \<noteq> [] \<Longrightarrow> contiguous (bs @ [b]) \<longleftrightarrow> contiguous bs \<and> bin_end (last bs) = bin_start b"
  by (induction bs rule: contiguous.induct) auto

lemma contiguous_sorted:
  fixes bs :: "('a::linorder) HistogramBin list"
  assumes "contiguous bs" and "\<forall>b\<in>set bs. bin_start b \<le> bin_end b"
  shows "sorted (map bin_start bs)"
proof -
  have "map bin_start bs ! i \<le> map bin_start bs ! Suc i" if "Suc i < length (map bin_start bs)" for i
  proof -
    from that have i: "i + 1 < length bs" by simp
    with assms(1) have "bin_end (bs ! i) = bin_start (bs ! (i + 1))"
      by (simp add: contiguous_iff_nth)
    moreover from i assms(2) have "bin_start (bs ! i) \<le> bin_end (bs ! i)" by simp
    ultimately show ?thesis using i by simp
  qed
  then show ?thesis by (simp add: sorted_iff_nth_Suc)
qed

lemma fill_bins:
  assumes "fill gen g n = Inr (h, cerr)"
  obtains bs0 where "std_generate gen g n = Inr bs0" "bs0 \<noteq> []"
    "bins h =
      (if bin_start (hd bs0) > numeric_limits_min
       then [new_HistogramBin numeric_limits_min (bin_start (hd bs0))] else []) @ bs0 @
      (if bin_end (last bs0) < numeric_limits_max
       then [new_HistogramBin (bin_end (last bs0)) numeric_limits_max] else [])"
    "cerr = fst (verify h)"
proof -
  from assms obtain bs0 where g: "std_generate gen g n = Inr bs0"
    by (auto simp: fill_def split: sum.splits)
  with assms have ne: "bs0 \<noteq> []"
    by (auto simp: fill_def split: if_splits)
  from assms g ne have "bins h =
      (if bin_start (hd bs0) > numeric_limits_min
       then [new_HistogramBin numeric_limits_min (bin_start (hd bs0))] else []) @ bs0 @
      (if bin_end (last bs0) < numeric_limits_max
       then [new_HistogramBin (bin_end (last bs0)) numeric_limits_max] else [])"
    and "cerr = fst (verify h)"
    by (auto simp: fill_def Let_def split: if_splits prod.splits)
  with g ne that show thesis by blast
qed

lemma fill_coverage:
  assumes "fill gen g n = Inr (h, cerr)"
  shows "full_coverage h"
proof -
  from assms obtain bs0 where ne: "bs0 \<noteq> []" and b: "bins h =
      (if bin_start (hd bs0) > numeric_limits_min
       then [new_HistogramBin numeric_limits_min (bin_start (hd bs0))] else []) @ bs0 @
      (if bin_end (last bs0) < numeric_limits_max
       then [new_HistogramBin (bin_end (last bs0)) numeric_limits_max] else [])"
    by (rule fill_bins)
  from ne have "bins h \<noteq> []" by (simp add: b)
  moreover have "bin_start (hd (bins h)) = numeric_limits_min"
    using ne not_bot_less_eq [of "bin_start (hd bs0)"]
    by (auto simp: b new_HistogramBin_def numeric_limits_min_def)
  moreover have "bin_end (last (bins h)) = numeric_limits_max"
    using ne not_less_top_eq [of "bin_end (last bs0)"]
    by (auto simp: b new_HistogramBin_def numeric_limits_max_def)
  ultimately show ?thesis by (simp add: full_coverage_def)
qed

lemma fill_contiguous:
  assumes "fill gen g n = Inr (h, cerr)" and "std_generate gen g n = Inr bs0"
  shows "contiguous (bins h) \<longleftrightarrow> contiguous bs0"
proof -
  from assms(1) obtain bs where g: "std_generate gen g n = Inr bs" and ne: "bs \<noteq> []" and b: "bins h =
      (if bin_start (hd bs) > numeric_limits_min
       then [new_HistogramBin numeric_limits_min (bin_start (hd bs))] else []) @ bs @
      (if bin_end (last bs) < numeric_limits_max
       then [new_HistogramBin (bin_end (last bs)) numeric_limits_max] else [])"
    by (rule fill_bins)
  from g assms(2) have eq: "bs = bs0" by simp
  have app: "contiguous (bs @ (if bin_end (last bs) < numeric_limits_max
       then [new_HistogramBin (bin_end (last bs)) numeric_limits_max] else [])) \<longleftrightarrow> contiguous bs"
    using ne by (simp add: contiguous_snoc new_HistogramBin_def)
  show ?thesis
    unfolding b eq [symmetric] using ne app
    by (simp add: contiguous_Cons new_HistogramBin_def)
qed

lemma std_generate_chained:
  assumes step: "\<And>g b g'. gen g = Inr (b, g') \<Longrightarrow> bin_start b = ns g \<and> bin_end b = ns g'"
  shows "std_generate gen g n = Inr bs \<Longrightarrow>
     contiguous bs \<and> (bs \<noteq> [] \<longrightarrow> bin_start (hd bs) = ns g)"
proof (induction n arbitrary: g bs)
  case 0
  then show ?case by simp
next
  case (Suc n)
  from Suc.prems obtain b g' rest where
    b: "gen g = Inr (b, g')" and r: "std_generate gen g' n = Inr rest" and bs: "bs = b # rest"
    by (auto split: sum.splits prod.splits)
  from Suc.IH [OF r] have ih: "contiguous rest" "rest \<noteq> [] \<longrightarrow> bin_start (hd rest) = ns g'"
    by simp_all
  from step [OF b] have sb: "bin_start b = ns g" "bin_end b = ns g'" by simp_all
  show ?case
  proof (cases rest)
    case Nil
    with bs sb show ?thesis by simp
  next
    case (Cons c cs)
    with ih sb bs show ?thesis by simp
  qed
qed

lemma FixedInputGenerator_contiguous:
  assumes "std_generate FixedInputGenerator_call g n = Inr bs"
  shows "contiguous bs"
proof -
  have "bin_start b = fig_input g ! fig_it g \<and> bin_end b = fig_input g' ! fig_it g'"
    if "FixedInputGenerator_call g = Inr (b, g')" for g b and g' :: "'a FixedInputGenerator"
    using that
    by (auto simp: FixedInputGenerator_call_def Let_def new_HistogramBin_def split: if_splits)
  from std_generate_chained [of FixedInputGenerator_call "\<lambda>g. fig_input g ! fig_it g", OF this assms]
  show ?thesis by simp
qed

lemma GrowingWidthGenerator_contiguous:
  assumes "std_generate GrowingWidthGenerator_call g n = Inr bs"
  shows "contiguous bs"
proof -
  have "bin_start b = gw_start g \<and> bin_end b = gw_start g'"
    if "GrowingWidthGenerator_call g = Inr (b, g')" for g g' :: "'a word GrowingWidthGenerator" and b
    using that
    by (auto simp: GrowingWidthGenerator_call_def new_HistogramBin_def split: sum.splits)
  from std_generate_chained [of GrowingWidthGenerator_call gw_start, OF this assms]
  show ?thesis by simp
qed

lemma ExponentialGenerator_contiguous:
  fixes bs :: "'a::len word HistogramBin list"
  assumes "std_generate (ExponentialGenerator_call pw) g n = Inr bs"
  shows "contiguous bs"
proof -
  define ns :: "ExponentialGenerator \<Rightarrow> 'a word" where
    "ns g = (case word_of_double (pw (eg_power g) (double_of_word (eg_start g))) of
               Inr s \<Rightarrow> s | Inl e \<Rightarrow> 0)" for g
  have "bin_start b = ns g \<and> bin_end b = ns g'"
    if "ExponentialGenerator_call pw g = Inr (b, g')" for g g' and b :: "'a word HistogramBin"
    using that
    by (auto simp: ExponentialGenerator_call_def Let_def new_HistogramBin_def ns_def
        split: sum.splits)
  from std_generate_chained [of "ExponentialGenerator_call pw" ns, OF this assms]
  show ?thesis by simp
qed

text \<open>
  What construction does establish. When it returns a histogram (\<open>n \<ge> 1\<close> and no call of
  the generator throws), the first bucket starts at the minimum of \<open>T\<close> and the last bucket
  ends at the maximum; adjacent buckets are contiguous exactly when the buckets the
  generator returned are; and contiguous buckets none of which has its start above its
  end are sorted by start. \<open>add\<close> and \<open>reset\<close> change none of this. The buckets of the
  three generators of the repository are always contiguous.
\<close>

lemma construction_guarantees:
  fixes h :: "('a::{linorder,order_bot,order_top}) Histogram"
  assumes "new_Histogram generator g n = Inr (h, cerr)" and "run_calls h cs = Inr h'"
  shows "full_coverage h' \<and>
         (contiguous (bins h') \<longleftrightarrow> snd (verify h)) \<and>
         (snd (verify h) \<longleftrightarrow> (\<exists>bs0. std_generate generator g n = Inr bs0 \<and> contiguous bs0)) \<and>
         (contiguous (bins h') \<and> (\<forall>b\<in>set (bins h'). bin_start b \<le> bin_end b) \<longrightarrow>
            sorted_by_start h') \<and>
         (\<forall>fg m hf cf. new_Histogram FixedInputGenerator_call fg m = Inr (hf :: 'a Histogram, cf) \<longrightarrow>
            contiguous (bins hf)) \<and>
         (\<forall>gg m hg cg.
            new_Histogram GrowingWidthGenerator_call gg m = Inr (hg :: 'b::len word Histogram, cg) \<longrightarrow>
            contiguous (bins hg)) \<and>
         (\<forall>pw eg m he ce.
            new_Histogram (ExponentialGenerator_call pw) eg m = Inr (he :: 'b word Histogram, ce) \<longrightarrow>
            contiguous (bins he))"
proof -
  from assms(1) have fl: "fill generator g n = Inr (h, cerr)" by (simp add: new_Histogram_def)
  from run_calls_bounds [OF assms(2)]
  have s: "map bin_start (bins h') = map bin_start (bins h)"
    and e: "map bin_end (bins h') = map bin_end (bins h)" by simp_all
  note sb = same_bounds [OF s e]
  have cov: "full_coverage h" using fl by (rule fill_coverage)
  then have ne: "bins h \<noteq> []" by (simp add: full_coverage_def)
  from cov have 1: "full_coverage h'"
    by (simp add: full_coverage_def sb)
  have 2: "contiguous (bins h') \<longleftrightarrow> snd (verify h)"
    using verify_iff [OF ne] cov sb(1) by simp
  from fl obtain bs0 where g: "std_generate generator g n = Inr bs0"
    by (rule fill_bins)
  have 3: "snd (verify h) \<longleftrightarrow> (\<exists>bs0. std_generate generator g n = Inr bs0 \<and> contiguous bs0)"
    using verify_iff [OF ne] cov fill_contiguous [OF fl g] g by auto
  have 4: "sorted_by_start h'"
    if "contiguous (bins h')" "\<forall>b\<in>set (bins h'). bin_start b \<le> bin_end b"
    using contiguous_sorted [OF that] by (simp add: sorted_by_start_def)
  have 5: "contiguous (bins hf)"
    if "new_Histogram FixedInputGenerator_call fg m = Inr (hf, cf)"
    for fg m cf and hf :: "'a Histogram"
  proof -
    from that have f: "fill FixedInputGenerator_call fg m = Inr (hf, cf)"
      by (simp add: new_Histogram_def)
    then obtain bs where b: "std_generate FixedInputGenerator_call fg m = Inr bs"
      by (rule fill_bins)
    from fill_contiguous [OF f b] FixedInputGenerator_contiguous [OF b] show ?thesis by simp
  qed
  have 6: "contiguous (bins hg)"
    if "new_Histogram GrowingWidthGenerator_call gg m = Inr (hg, cg)"
    for gg m cg and hg :: "'b word Histogram"
  proof -
    from that have f: "fill GrowingWidthGenerator_call gg m = Inr (hg, cg)"
      by (simp add: new_Histogram_def)
    then obtain bs where b: "std_generate GrowingWidthGenerator_call gg m = Inr bs"
      by (rule fill_bins)
    from fill_contiguous [OF f b] GrowingWidthGenerator_contiguous [OF b] show ?thesis by simp
  qed
  have 7: "contiguous (bins he)"
    if "new_Histogram (ExponentialGenerator_call pw) eg m = Inr (he, ce)"
    for pw eg m ce and he :: "'b word Histogram"
  proof -
    from that have f: "fill (ExponentialGenerator_call pw) eg m = Inr (he, ce)"
      by (simp add: new_Histogram_def)
    then obtain bs :: "'b word HistogramBin list"
      where b: "std_generate (ExponentialGenerator_call pw) eg m = Inr bs"
      by (rule fill_bins)
    from fill_contiguous [OF f b] ExponentialGenerator_contiguous [OF b] show ?thesis by simp
  qed
  from 1 2 3 4 5 6 7 show ?thesis by blast
qed

lemma example_run_calls:
  "run_calls \<lparr>bins = [new_HistogramBin 0 5, new_HistogramBin 5 15,
                      new_HistogramBin 15 (numeric_limits_max :: hrtime_t)]\<rparr>
     [Add 7 1, Reset, Add 20 2] =
   Inr \<lparr>bins = [new_HistogramBin 0 5, new_HistogramBin 5 15,
                 (new_HistogramBin 15 numeric_limits_max)\<lparr>bin_count := 2\<rparr>]\<rparr>"
  by (simp add: add_def findBin_def upper_bound_def upper_bound_loop.simps Let_def BinCompare_def
      accepts_def new_HistogramBin_def max64 reset_def set_count_def incr_def)

lemma construction_guarantees_example:
  "full_coverage \<lparr>bins = [new_HistogramBin 0 5, new_HistogramBin 5 15,
       (new_HistogramBin 15 (numeric_limits_max :: hrtime_t))\<lparr>bin_count := 2\<rparr>]\<rparr> \<and>
   contiguous [new_HistogramBin 0 5, new_HistogramBin 5 15,
       (new_HistogramBin 15 (numeric_limits_max :: hrtime_t))\<lparr>bin_count := 2\<rparr>] \<and>
   sorted_by_start \<lparr>bins = [new_HistogramBin 0 5, new_HistogramBin 5 15,
       (new_HistogramBin 15 (numeric_limits_max :: hrtime_t))\<lparr>bin_count := 2\<rparr>]\<rparr> \<and>
   contiguous [new_HistogramBin 0 9223372036854775808, new_HistogramBin 9223372036854775808 0,
       new_HistogramBin 0 (numeric_limits_max :: hrtime_t)]"
proof -
  let ?h = "\<lparr>bins = [new_HistogramBin 0 5, new_HistogramBin 5 15,
       (new_HistogramBin 15 (numeric_limits_max :: hrtime_t))\<lparr>bin_count := 2\<rparr>]\<rparr>"
  note inv = construction_guarantees [OF example_histogram example_run_calls, where 'b = 64]
  have g: "\<exists>bs0. std_generate FixedInputGenerator_call (new_FixedInputGenerator [0, 5, 15 :: hrtime_t]) 2 =
      Inr bs0 \<and> contiguous bs0"
    by (simp add: example_generate new_HistogramBin_def)
  have le: "\<forall>b\<in>set (bins ?h). bin_start b \<le> bin_end b"
    by (simp add: new_HistogramBin_def max64)
  from inv have 1: "full_coverage ?h" by blast
  from inv g have 2: "contiguous (bins ?h)" by blast
  from inv 2 le have 3: "sorted_by_start ?h" by blast
  from inv wrapped_histogram
  have "contiguous (bins \<lparr>bins = [new_HistogramBin 0 9223372036854775808,
      new_HistogramBin 9223372036854775808 0, new_HistogramBin 0 (numeric_limits_max :: hrtime_t)]\<rparr>)"
    by blast
  then have 4: "contiguous [new_HistogramBin 0 9223372036854775808,
      new_HistogramBin 9223372036854775808 0, new_HistogramBin 0 (numeric_limits_max :: hrtime_t)]"
    by simp
  from 1 2 3 4 show ?thesis by simp
qed

text \<open>
  C1 fails on the code. The growing-width generator for \<open>uint64_t\<close> from 0 with width
  \<open>2 ^ 63\<close> and two buckets wraps around: the constructor returns the buckets
  \<open>[0, 2 ^ 63)\<close>, \<open>[2 ^ 63, 0)\<close>, \<open>[0, max)\<close>, whose starts are not in ascending order and
  of which the first and the third both accept 5. \<open>verify\<close>, which is to check that the
  buckets are sorted and do not overlap, writes nothing and returns true on them.
\<close>

theorem construction_unsorted:
  "new_Histogram GrowingWidthGenerator_call
     (new_GrowingWidthGenerator (0::hrtime_t) 9223372036854775808 (Finite 1)) 2 =
   Inr (\<lparr>bins = [new_HistogramBin 0 9223372036854775808,
                  new_HistogramBin 9223372036854775808 0,
                  new_HistogramBin 0 numeric_limits_max]\<rparr>, []) \<and>
   verify \<lparr>bins = [new_HistogramBin 0 9223372036854775808,
                  new_HistogramBin 9223372036854775808 0,
                  new_HistogramBin 0 (numeric_limits_max :: hrtime_t)]\<rparr> = ([], True) \<and>
   \<not> sorted_by_start \<lparr>bins = [new_HistogramBin 0 9223372036854775808,
                  new_HistogramBin 9223372036854775808 0,
                  new_HistogramBin 0 (numeric_limits_max :: hrtime_t)]\<rparr> \<and>
   accepts ([new_HistogramBin 0 9223372036854775808,
             new_HistogramBin 9223372036854775808 0,
             new_HistogramBin 0 (numeric_limits_max :: hrtime_t)] ! 0) 5 \<and>
   accepts ([new_HistogramBin 0 9223372036854775808,
             new_HistogramBin 9223372036854775808 0,
             new_HistogramBin 0 (numeric_limits_max :: hrtime_t)] ! 2) 5"
  by (simp add: wrapped_histogram sorted_by_start_def verify_def accepts_def
      new_HistogramBin_def min64 max64)

text \<open>
  C4 fails on the code. A generator that returns \<open>[0, 5)\<close> and then \<open>[7, 9)\<close> leaves a
  gap. \<open>verify\<close> reports it and returns false, \<open>fill\<close> drops the result, and the
  constructor returns the histogram: \<open>findBin 6\<close> is null there and \<open>add 6\<close>
  dereferences it.
\<close>

theorem construction_ignores_verify:
  "new_Histogram listed_bins_call [new_HistogramBin (0 :: hrtime_t) 5, new_HistogramBin 7 9] 2 =
     Inr (\<lparr>bins = [new_HistogramBin 0 5, new_HistogramBin 7 9,
                    new_HistogramBin 9 numeric_limits_max]\<rparr>, [Expected 7 5 1]) \<and>
   verify \<lparr>bins = [new_HistogramBin (0 :: hrtime_t) 5, new_HistogramBin 7 9,
                   new_HistogramBin 9 numeric_limits_max]\<rparr> = ([Expected 7 5 1], False) \<and>
   findBin \<lparr>bins = [new_HistogramBin (0 :: hrtime_t) 5, new_HistogramBin 7 9,
                    new_HistogramBin 9 numeric_limits_max]\<rparr> 6 = Inr None \<and>
   add \<lparr>bins = [new_HistogramBin (0 :: hrtime_t) 5, new_HistogramBin 7 9,
                new_HistogramBin 9 numeric_limits_max]\<rparr> 6 1 = Inl undefined_behaviour"
  by (simp add: new_Histogram_def fill_def std_generate_2 listed_bins_call_def Let_def verify_def
      add_def findBin_def upper_bound_def upper_bound_loop.simps BinCompare_def accepts_def
      new_HistogramBin_def min64 max64)

section \<open>The scoped timer\<close>

text \<open>
  C10. Destroying a scoped timer, with \<open>e = now - start\<close> nanoseconds elapsed: when a
  destination histogram was supplied, \<open>add (e / 1000)\<close> is called on it (the destructor
  ends there if that call does); when a name and a stream were supplied, the name, a
  tab, \<open>e\<close> and a newline are appended to that stream; and the warning with the name and
  \<open>e / 1000000\<close> is appended to \<open>std::cerr\<close> exactly when \<open>THRESHOLD_MS > 0\<close>, a name was
  supplied and \<open>e / 1000000 > THRESHOLD_MS\<close>. Nothing else is written.
\<close>

theorem destroy_GenericBlockTimer_effects:
  "(case bt_dest t of
      None \<Rightarrow>
        (\<exists>w'. destroy_GenericBlockTimer THRESHOLD_MS t now w = Inr w' \<and>
              histograms w' = histograms w)
    | Some d \<Rightarrow>
        (case add (histograms w d) ((now - bt_start t) div 1000) 1 of
           Inl err \<Rightarrow> destroy_GenericBlockTimer THRESHOLD_MS t now w = Inl err
         | Inr h \<Rightarrow>
             (\<exists>w'. destroy_GenericBlockTimer THRESHOLD_MS t now w = Inr w' \<and>
                   histograms w' = (histograms w)(d := h)))) \<and>
   (\<forall>w' s. destroy_GenericBlockTimer THRESHOLD_MS t now w = Inr w' \<longrightarrow>
      written w' s =
        written w s @
        (if bt_out t = Some s \<and> bt_name t \<noteq> None
         then the (bt_name t) @ [CHR 0x09] @ decimal (unat (now - bt_start t)) @ [CHR 0x0A]
         else []) @
        (if s = std_cerr \<and> THRESHOLD_MS > 0 \<and> bt_name t \<noteq> None \<and>
            (now - bt_start t) div 1000000 > THRESHOLD_MS
         then ''BlockTimer<'' @ the (bt_name t) @ ''> Took too long: '' @
              decimal (unat ((now - bt_start t) div 1000000)) @ ''ms'' @ [CHR 0x0A]
         else []))"
proof -
  have log_hist: "histograms (GenericBlockTimer_log th sp nm os v) = histograms v" for th sp nm os v
    by (simp add: GenericBlockTimer_log_def write_to_def Let_def split: option.splits)
  have log_written: "written (GenericBlockTimer_log th sp nm os v) s =
      written v s @
        (if os = Some s \<and> nm \<noteq> None
         then the nm @ [CHR 0x09] @ decimal (unat sp) @ [CHR 0x0A] else []) @
        (if s = std_cerr \<and> th > 0 \<and> nm \<noteq> None \<and> sp div 1000000 > th
         then ''BlockTimer<'' @ the nm @ ''> Took too long: '' @
              decimal (unat (sp div 1000000)) @ ''ms'' @ [CHR 0x0A]
         else [])" for th sp nm os v s
    by (cases os; cases nm) (simp_all add: GenericBlockTimer_log_def write_to_def Let_def)
  show ?thesis
  proof (cases "bt_dest t")
    case None
    then show ?thesis
      by (simp add: destroy_GenericBlockTimer_def Let_def log_hist log_written)
  next
    case (Some d)
    show ?thesis
    proof (cases "add (histograms w d) ((now - bt_start t) div 1000) 1")
      case (Inl err)
      with Some show ?thesis
        by (simp add: destroy_GenericBlockTimer_def Let_def)
    next
      case (Inr h)
      with Some show ?thesis
        by (simp add: destroy_GenericBlockTimer_def Let_def log_hist log_written)
    qed
  qed
qed

theorem destroy_GenericBlockTimer_effects_witness:
  "\<exists>w'. destroy_GenericBlockTimer 10
           (new_GenericBlockTimer (Some 0) (Some ''op'') (Some (other_stream 1)) 1000) 25001000
           \<lparr>histograms = (\<lambda>a. \<lparr>bins = [new_HistogramBin 0 5, new_HistogramBin 5 15,
                                       new_HistogramBin 15 numeric_limits_max]\<rparr>),
            written = (\<lambda>s. [])\<rparr> = Inr w' \<and>
         bins (histograms w' 0) =
           [new_HistogramBin 0 5, new_HistogramBin 5 15,
            (new_HistogramBin 15 numeric_limits_max)\<lparr>bin_count := 1\<rparr>] \<and>
         written w' (other_stream 1) = ''op'' @ [CHR 0x09] @ ''25000000'' @ [CHR 0x0A] \<and>
         written w' std_cerr = ''BlockTimer<op> Took too long: 25ms'' @ [CHR 0x0A]"
proof -
  let ?h = "\<lparr>bins = [new_HistogramBin 0 5, new_HistogramBin 5 15,
                    new_HistogramBin 15 (numeric_limits_max :: hrtime_t)]\<rparr>"
  let ?t = "new_GenericBlockTimer (Some 0) (Some ''op'') (Some (other_stream 1)) 1000"
  let ?w = "\<lparr>histograms = (\<lambda>a. ?h), written = (\<lambda>s. [])\<rparr>"
  have a: "add ?h 25000 1 = Inr \<lparr>bins = [new_HistogramBin 0 5, new_HistogramBin 5 15,
            (new_HistogramBin 15 numeric_limits_max)\<lparr>bin_count := 1\<rparr>]\<rparr>"
    by (simp add: add_def findBin_def upper_bound_def upper_bound_loop.simps Let_def BinCompare_def
        accepts_def new_HistogramBin_def max64 incr_def)
  have e: "(25001000 :: hrtime_t) - bt_start ?t = 25000000"
    by (simp add: new_GenericBlockTimer_def)
  have d: "bt_dest ?t = Some 0" "bt_name ?t = Some ''op''" "bt_out ?t = Some (other_stream 1)"
    by (simp_all add: new_GenericBlockTimer_def)
  have u: "unat (25000000 :: hrtime_t) = 25000000" "(25000000 :: hrtime_t) div 1000000 = 25"
    "(25000000 :: hrtime_t) div 1000 = 25000" "unat (25 :: hrtime_t) = 25"
    by simp_all
  note eff = destroy_GenericBlockTimer_effects
    [where t = ?t and THRESHOLD_MS = 10 and now = 25001000 and w = ?w, unfolded e d u]
  from eff [THEN conjunct1] obtain w' where
    w': "destroy_GenericBlockTimer 10 ?t 25001000 ?w = Inr w'"
    and hs: "histograms w' = (histograms ?w)(0 := \<lparr>bins = [new_HistogramBin 0 5, new_HistogramBin 5 15,
            (new_HistogramBin 15 numeric_limits_max)\<lparr>bin_count := 1\<rparr>]\<rparr>)"
    by (auto simp: a)
  from eff [THEN conjunct2, rule_format, OF w']
  have wr: "written w' s =
        written ?w s @
        (if Some (other_stream 1) = Some s \<and> Some ''op'' \<noteq> None
         then the (Some ''op'') @ [CHR 0x09] @ decimal 25000000 @ [CHR 0x0A]
         else []) @
        (if s = std_cerr \<and> (10 :: 64 word) > 0 \<and> Some ''op'' \<noteq> None \<and> (25 :: hrtime_t) > 10
         then ''BlockTimer<'' @ the (Some ''op'') @ ''> Took too long: '' @
              decimal 25 @ ''ms'' @ [CHR 0x0A]
         else [])" for s .
  have "bins (histograms w' 0) =
           [new_HistogramBin 0 5, new_HistogramBin 5 15,
            (new_HistogramBin 15 numeric_limits_max)\<lparr>bin_count := 1\<rparr>]"
    by (simp add: hs)
  moreover have "written w' (other_stream 1) = ''op'' @ [CHR 0x09] @ ''25000000'' @ [CHR 0x0A]"
    by (simp add: wr digit_char_def)
  moreover have "written w' std_cerr = ''BlockTimer<op> Took too long: 25ms'' @ [CHR 0x0A]"
    by (simp add: wr digit_char_def)
  ultimately show ?thesis using w' by blast
qed

end
